theory Spec2Isabelle
  imports Complex_Main "HOL-Library.Sublist" "HOL-Library.Char_ord" "HOL-Library.List_Lexorder"
    "HOL-Library.Product_Lexorder" "HOL-Library.Multiset"
begin

section \<open>Strings\<close>

text \<open>
  A Python \<open>str\<close> is modelled as a \<open>string\<close>, each \<open>char\<close> standing for one code point
  in the range U+0000..U+00FF. The character classes below are the ones Python 3 uses
  on that range: \<open>str.isspace\<close> (which is also the \<open>\s\<close> of \<open>re\<close>), the decimal digits
  (\<open>\d\<close>), the word characters (\<open>\w\<close>, used by \<open>\b\<close>), and \<open>str.lower\<close>.
\<close>

definition isspace :: "char \<Rightarrow> bool" where
  "isspace c = (of_char c \<in> set [9, 10, 11, 12, 13, 28, 29, 30, 31, 32, 133, 160 :: nat])"

definition isdigit :: "char \<Rightarrow> bool" where
  "isdigit c = (let n = of_char c :: nat in 48 \<le> n \<and> n \<le> 57)"

definition isword :: "char \<Rightarrow> bool" where
  "isword c = (let n = of_char c :: nat in
     (48 \<le> n \<and> n \<le> 57) \<or> (65 \<le> n \<and> n \<le> 90) \<or> n = 95 \<or> (97 \<le> n \<and> n \<le> 122)
     \<or> n \<in> set [170, 178, 179, 181, 185, 186, 188, 189, 190]
     \<or> (192 \<le> n \<and> n \<le> 214) \<or> (216 \<le> n \<and> n \<le> 246) \<or> (248 \<le> n \<and> n \<le> 255))"

definition lower_char :: "char \<Rightarrow> char" where
  "lower_char c = (let n = of_char c :: nat in
     if (65 \<le> n \<and> n \<le> 90) \<or> (192 \<le> n \<and> n \<le> 222 \<and> n \<noteq> 215)
     then char_of (n + 32) else c)"

text \<open>\<open>s.lower()\<close>\<close>

definition str_lower :: "string \<Rightarrow> string" where
  "str_lower s = map lower_char s"

text \<open>\<open>s.strip()\<close>: leading and trailing whitespace removed.\<close>

definition str_strip :: "string \<Rightarrow> string" where
  "str_strip s = rev (dropWhile isspace (rev (dropWhile isspace s)))"

text \<open>\<open>s.replace(' ', '')\<close>: every U+0020 removed, no other whitespace.\<close>

definition str_replace_space :: "string \<Rightarrow> string" where
  "str_replace_space s = filter (\<lambda>c. c \<noteq> CHR '' '') s"

text \<open>\<open>k in s\<close> on strings: \<open>k\<close> occurs in \<open>s\<close> as a contiguous run.\<close>

definition str_in :: "string \<Rightarrow> string \<Rightarrow> bool" where
  "str_in k s = sublist k s"

section \<open>The record table\<close>

text \<open>
  A row of the DataFrame with the columns Title, Genre, Rating, Year. The model holds
  every value as the text of its field; a missing value (NaN) is \<open>None\<close>. This is
  the DataFrame that \<open>pd.read_csv\<close> returns for a table whose columns it reads as
  text; \<open>text_table\<close> below says which tables the model covers. A column in which
  every value parses as a number or as a boolean is read by pandas with that type:
  on such a Genre column the \<open>.str\<close> accessor raises, and such Title and Year values are
  compared as numbers. The model does not describe the load of those tables.
\<close>

record row =
  Title :: "string option"
  Genre :: "string option"
  Rating :: "string option"
  Year :: "string option"

text \<open>One line of \<open>movies.csv\<close> as written: four text fields.\<close>

record csv_line =
  title_field :: string
  genre_field :: string
  rating_field :: string
  year_field :: string

text \<open>
  What \<open>os.path.exists\<close> and \<open>pd.read_csv\<close> find: no file, a file that \<open>read_csv\<close>
  raises on, or a table of lines under the header.
\<close>

datatype csv_file = Missing | Unreadable | Table "csv_line list"

text \<open>
  The strings \<open>pd.read_csv\<close> reads as NaN by default; the empty field is among them.
\<close>

definition na_values :: "string list" where
  "na_values = ['''', ''#N/A'', ''#N/A N/A'', ''#NA'', ''-1.#IND'', ''-1.#QNAN'', ''-NaN'',
     ''-nan'', ''1.#IND'', ''1.#QNAN'', ''<NA>'', ''N/A'', ''NA'', ''NULL'', ''NaN'', ''None'',
     ''n/a'', ''nan'', ''null'']"

definition read_cell :: "string \<Rightarrow> string option" where
  "read_cell s = (if s \<in> set na_values then None else Some s)"

definition read_csv :: "csv_line list \<Rightarrow> row list" where
  "read_csv ls = map (\<lambda>l. \<lparr>Title = read_cell (title_field l), Genre = read_cell (genre_field l),
     Rating = read_cell (rating_field l), Year = read_cell (year_field l)\<rparr>) ls"






text \<open>\<open>df.dropna(subset=['Title', 'Genre'])\<close>\<close>

definition dropna :: "row list \<Rightarrow> row list" where
  "dropna df = filter (\<lambda>r. Title r \<noteq> None \<and> Genre r \<noteq> None) df"

text \<open>\<open>df['Genre'].str.lower().str.replace(' ', '')\<close> on one value.\<close>

definition normalize_genre :: "string \<Rightarrow> string" where
  "normalize_genre g = str_replace_space (str_lower g)"

definition normalize_row :: "row \<Rightarrow> row" where
  "normalize_row r = r\<lparr>Genre := map_option normalize_genre (Genre r)\<rparr>"

text \<open>
  \<open>df.drop_duplicates(subset=['Title', 'Year'])\<close>, which keeps the first row of each
  key; two missing values count as equal. \<open>seen\<close> holds the keys of the rows before.
\<close>

definition dup_key :: "row \<Rightarrow> string option \<times> string option" where
  "dup_key r = (Title r, Year r)"

fun drop_dups_from :: "(string option \<times> string option) list \<Rightarrow> row list \<Rightarrow> row list" where
  "drop_dups_from seen [] = []"
| "drop_dups_from seen (r # rs) =
     (if dup_key r \<in> set seen then drop_dups_from seen rs
      else r # drop_dups_from (dup_key r # seen) rs)"

definition drop_duplicates :: "row list \<Rightarrow> row list" where
  "drop_duplicates df = drop_dups_from [] df"

text \<open>
  \<open>load_and_clean_movies\<close>, on the tables of \<open>text_table\<close>. Every exception is caught
  and gives \<open>None\<close>: on these tables the one the cleaning can raise is the \<open>.str\<close>
  accessor on a Genre column in which every value is missing (a float column of NaN),
  an AttributeError.
\<close>

definition load_and_clean_movies :: "csv_file \<Rightarrow> row list option" where
  "load_and_clean_movies f =
     (case f of
        Missing \<Rightarrow> None
      | Unreadable \<Rightarrow> None
      | Table ls \<Rightarrow>
          let df = read_csv ls in
          if df = [] then None
          else
            let df1 = dropna df in
            if list_all (\<lambda>r. Genre r = None) df then None
            else
              let df2 = map normalize_row df1 in
              Some (drop_duplicates df2))"

section \<open>Genre filter\<close>

text \<open>\<open>str(g)\<close> of a cell: a missing value prints as \<open>nan\<close>.\<close>

definition str_of_cell :: "string option \<Rightarrow> string" where
  "str_of_cell c = (case c of None \<Rightarrow> ''nan'' | Some s \<Rightarrow> s)"

definition filter_movies_by_genres :: "row list \<Rightarrow> string list \<Rightarrow> row list" where
  "filter_movies_by_genres df genres =
     (let genres' = map (\<lambda>g. str_replace_space (str_lower (str_strip g))) genres
      in filter (\<lambda>r. list_ex (\<lambda>gen. str_in gen (str_lower (str_of_cell (Genre r)))) genres') df)"


section \<open>Regular expressions of the extractors\<close>

text \<open>
  Each pattern is written out as the function the backtracking matcher computes.
  A lazy group \<open>(.*?)\<close> at the start of the pattern grows one character at a time, and
  the first length at which the rest of the pattern matches is taken:
  \<open>lazy_prefix ok cont pre s\<close> has consumed \<open>pre\<close>, tries the rest of the pattern
  \<open>cont\<close> on \<open>s\<close>, and otherwise moves one character allowed by \<open>ok\<close> into the group.
\<close>

fun lazy_prefix ::
  "(char \<Rightarrow> bool) \<Rightarrow> (string \<Rightarrow> 'a option) \<Rightarrow> string \<Rightarrow> string \<Rightarrow> (string \<times> 'a) option" where
  "lazy_prefix ok cont pre [] = (case cont [] of Some v \<Rightarrow> Some (pre, v) | None \<Rightarrow> None)"
| "lazy_prefix ok cont pre (c # cs) =
     (case cont (c # cs) of
        Some v \<Rightarrow> Some (pre, v)
      | None \<Rightarrow> if ok c then lazy_prefix ok cont (pre @ [c]) cs else None)"

text \<open>\<open>.\<close> matches every character but the newline.\<close>

definition dot :: "char \<Rightarrow> bool" where
  "dot c = (c \<noteq> CHR 0x0A)"

text \<open>\<open>(\d{4})\<close> at the start of \<open>s\<close>: the four digits.\<close>

definition four_digits :: "string \<Rightarrow> string option" where
  "four_digits s =
     (case s of
        d1 # d2 # d3 # d4 # _ \<Rightarrow>
          if isdigit d1 \<and> isdigit d2 \<and> isdigit d3 \<and> isdigit d4 then Some [d1, d2, d3, d4]
          else None
      | _ \<Rightarrow> None)"

text \<open>\<open>\((\d{4})\)\<close> at the start of \<open>s\<close>.\<close>

definition paren_year :: "string \<Rightarrow> string option" where
  "paren_year s =
     (case s of
        c # r \<Rightarrow>
          if c = CHR ''(''
          then (case four_digits r of
                  Some y \<Rightarrow> (if prefix '')'' (drop 4 r) then Some y else None)
                | None \<Rightarrow> None)
          else None
      | _ \<Rightarrow> None)"

text \<open>
  \<open>\s+\((\d{4})\)\<close> at the start of \<open>s\<close>. The greedy \<open>\s+\<close> takes the whole run of
  whitespace; giving a character back leaves whitespace where \<open>(\<close> is required, so
  no shorter run can match.
\<close>

definition spaces_paren_year :: "string \<Rightarrow> string option" where
  "spaces_paren_year s =
     (case s of
        c # r \<Rightarrow> if isspace c then paren_year (dropWhile isspace r) else None
      | _ \<Rightarrow> None)"

text \<open>\<open>\s*-\s*(\d{4})\<close> at the start of \<open>s\<close>.\<close>

definition dash_year :: "string \<Rightarrow> string option" where
  "dash_year s =
     (case dropWhile isspace s of
        c # r \<Rightarrow> if c = CHR ''-'' then four_digits (dropWhile isspace r) else None
      | _ \<Rightarrow> None)"

text \<open>\<open>,\s*(\d{4})\<close> at the start of \<open>s\<close>.\<close>

definition comma_year :: "string \<Rightarrow> string option" where
  "comma_year s =
     (case s of
        c # r \<Rightarrow> if c = CHR '','' then four_digits (dropWhile isspace r) else None
      | _ \<Rightarrow> None)"

text \<open>The three title and year patterns: groups 1 and 2 of the match, if any.\<close>

definition match_title_paren_year :: "string \<Rightarrow> (string \<times> string) option" where
  "match_title_paren_year text = lazy_prefix dot spaces_paren_year [] text"

definition match_title_dash_year :: "string \<Rightarrow> (string \<times> string) option" where
  "match_title_dash_year text = lazy_prefix dot dash_year [] text"

definition match_title_comma_year :: "string \<Rightarrow> (string \<times> string) option" where
  "match_title_comma_year text = lazy_prefix dot comma_year [] text"

text \<open>
  \<open>(?:\s+was|\s+is|\s+has been|\s+won|\s+received)\<close> at the start of \<open>s\<close>: a run of
  whitespace, then one of the words.
\<close>

definition verb_cues :: "string list" where
  "verb_cues = [''was'', ''is'', ''has been'', ''won'', ''received'']"

definition verb_cue :: "string \<Rightarrow> unit option" where
  "verb_cue s =
     (case s of
        c # r \<Rightarrow>
          if isspace c \<and> list_ex (\<lambda>w. prefix w (dropWhile isspace r)) verb_cues then Some ()
          else None
      | _ \<Rightarrow> None)"

text \<open>\<open>[^.!?]\<close>\<close>

definition not_sentence_end :: "char \<Rightarrow> bool" where
  "not_sentence_end c = (c \<noteq> CHR ''.'' \<and> c \<noteq> CHR ''!'' \<and> c \<noteq> CHR ''?'')"

text \<open>
  \<open>^([^.!?]+?)(?:\s+was|\s+is|\s+has been|\s+won|\s+received)\<close>: group 1 of the match.
  The group holds at least one character.
\<close>

definition match_sentence :: "string \<Rightarrow> string option" where
  "match_sentence text =
     (case text of
        c # cs \<Rightarrow>
          if not_sentence_end c
          then map_option fst (lazy_prefix not_sentence_end verb_cue [c] cs)
          else None
      | _ \<Rightarrow> None)"

text \<open>
  \<open>re.sub(r'\s*\([^)]*\)\s*', ' ', s)\<close>. At each position, left to right: a run of
  whitespace, \<open>(\<close>, everything up to the next \<open>)\<close>, and the whitespace after it are
  replaced by one space; where that does not match, the character is kept.
\<close>

definition close_paren :: "string \<Rightarrow> string option" where
  "close_paren s =
     (case dropWhile (\<lambda>c. c \<noteq> CHR '')'') s of
        c # rest \<Rightarrow> Some (dropWhile isspace rest)
      | _ \<Rightarrow> None)"

definition aside :: "string \<Rightarrow> string option" where
  "aside s =
     (case dropWhile isspace s of
        c # r \<Rightarrow> if c = CHR ''('' then close_paren r else None
      | _ \<Rightarrow> None)"

function sub_parens :: "string \<Rightarrow> string" where
  "sub_parens [] = []"
| "sub_parens (c # cs) =
     (case aside (c # cs) of
        Some rest \<Rightarrow> CHR '' '' # sub_parens rest
      | None \<Rightarrow> c # sub_parens cs)"
  by pat_completeness auto
termination
proof (relation "measure length")
  fix c :: char and cs rest :: string
  assume a: "aside (c # cs) = Some rest"
  then obtain r where r: "dropWhile isspace (c # cs) = CHR ''('' # r"
    and cl: "close_paren r = Some rest"
    by (auto simp: aside_def split: list.splits if_splits)
  from cl obtain r' where r': "dropWhile (\<lambda>c. c \<noteq> CHR '')'') r = CHR '')'' # r'"
    and rest: "rest = dropWhile isspace r'"
    by (auto simp: close_paren_def split: list.splits dest: dropWhile_eq_Cons_conv [THEN iffD1])
  have "length rest \<le> length r'"
    unfolding rest by (rule length_dropWhile_le)
  also have "length r' < length (dropWhile (\<lambda>c. c \<noteq> CHR '')'') r)"
    by (simp add: r')
  also have "\<dots> \<le> length r"
    by (rule length_dropWhile_le)
  also have "length r < length (dropWhile isspace (c # cs))"
    by (simp only: r) simp
  also have "\<dots> \<le> length (c # cs)"
    by (rule length_dropWhile_le)
  finally show "(rest, c # cs) \<in> measure length" by simp
qed simp_all

text \<open>
  \<open>re.search(r'\b(19|20)\d{2}\b', text)\<close>: the first position at a word boundary where
  19 or 20 and two digits stand, followed by a word boundary. \<open>prev\<close> tells whether
  the character before the position is a word character.
\<close>

definition year_token :: "string \<Rightarrow> bool" where
  "year_token s =
     (case s of
        a # b # c # d # rest \<Rightarrow>
          ([a, b] = ''19'' \<or> [a, b] = ''20'') \<and> isdigit c \<and> isdigit d
          \<and> (case rest of [] \<Rightarrow> True | e # _ \<Rightarrow> \<not> isword e)
      | _ \<Rightarrow> False)"

fun year_from :: "bool \<Rightarrow> string \<Rightarrow> string option" where
  "year_from prev [] = None"
| "year_from prev (c # cs) =
     (if \<not> prev \<and> year_token (c # cs) then Some (take 4 (c # cs))
      else year_from (isword c) cs)"

definition search_year :: "string \<Rightarrow> string option" where
  "search_year text = year_from False text"

text \<open>
  \<open>re.sub(r'\[.*?\]', '', s)\<close>: from a \<open>[\<close> through the next \<open>]\<close>, with no newline
  between them.
\<close>

fun close_bracket :: "string \<Rightarrow> string option" where
  "close_bracket [] = None"
| "close_bracket (c # cs) =
     (if c = CHR '']'' then Some cs else if dot c then close_bracket cs else None)"

function sub_brackets :: "string \<Rightarrow> string" where
  "sub_brackets [] = []"
| "sub_brackets (c # cs) =
     (case (if c = CHR ''['' then close_bracket cs else None) of
        Some rest \<Rightarrow> sub_brackets rest
      | None \<Rightarrow> c # sub_brackets cs)"
  by pat_completeness auto
termination
proof (relation "measure length")
  fix c :: char and cs rest :: string
  assume a: "(if c = CHR ''['' then close_bracket cs else None) = Some rest"
  have "close_bracket xs = Some ys \<Longrightarrow> length ys < length xs" for xs ys
    by (induction xs) (auto split: if_splits)
  with a show "(rest, c # cs) \<in> measure length"
    by (fastforce split: if_splits)
qed simp_all

text \<open>\<open>re.sub(r'\s*\(edit\)\s*', '', s)\<close>\<close>

definition edit_marker :: "string \<Rightarrow> string option" where
  "edit_marker s =
     (let r = dropWhile isspace s
      in if prefix ''(edit)'' r then Some (dropWhile isspace (drop 6 r)) else None)"

function sub_edit :: "string \<Rightarrow> string" where
  "sub_edit [] = []"
| "sub_edit (c # cs) =
     (case edit_marker (c # cs) of
        Some rest \<Rightarrow> sub_edit rest
      | None \<Rightarrow> c # sub_edit cs)"
  by pat_completeness auto
termination
proof (relation "measure length")
  fix c :: char and cs rest :: string
  assume a: "edit_marker (c # cs) = Some rest"
  define r where "r = dropWhile isspace (c # cs)"
  from a have p: "prefix ''(edit)'' r" and rest: "rest = dropWhile isspace (drop 6 r)"
    by (auto simp: edit_marker_def r_def Let_def split: if_splits)
  from p have "6 \<le> length r"
    using prefix_length_le by fastforce
  then have "length (drop 6 r) < length r" by simp
  moreover have "length rest \<le> length (drop 6 r)"
    unfolding rest by (rule length_dropWhile_le)
  moreover have "length r \<le> length (c # cs)"
    unfolding r_def by (rule length_dropWhile_le)
  ultimately show "(rest, c # cs) \<in> measure length" by simp
qed simp_all

section \<open>Extraction\<close>

text \<open>
  What an extractor returns for one list item: the list \<open>[title, genre, rating, year]\<close>.
\<close>

type_synonym movie_data = "string \<times> string \<times> string \<times> string"

text \<open>
  \<open>extract_movie_from_li\<close>, on the text \<open>li.get_text(" ", strip=True)\<close> of the item.
  \<open>None\<close> is the Python \<open>None\<close>.
\<close>

definition extract_movie_from_li :: "string \<Rightarrow> string \<Rightarrow> movie_data option" where
  "extract_movie_from_li text genre =
     (case match_title_paren_year text of
        Some (g1, g2) \<Rightarrow>
          let title = str_strip g1; year = g2
          in Some (title, genre, ''N/A'', year)
      | None \<Rightarrow>
          (case match_sentence text of
             Some g1 \<Rightarrow>
               let title = str_strip g1;
                   title = str_strip (sub_parens title);
                   year = (case search_year text of Some y \<Rightarrow> y | None \<Rightarrow> [])
               in if length title > 2 then Some (title, genre, ''N/A'', year) else None
           | None \<Rightarrow> None))"

text \<open>
  The elements \<open>soup.find_all(['h2', 'h3', 'h4', 'ul'])\<close> returns, in document order: a
  heading with its text, or a list with the texts of its items.
\<close>

datatype element = Heading string | UL "string list"

text \<open>The dictionary \<open>genre_keywords\<close>, in its insertion order, which is its iteration order.\<close>

definition genre_keywords :: "(string \<times> string) list" where
  "genre_keywords =
    [(''action'', ''Action''),
     (''animation'', ''Animation''),
     (''christmas'', ''Christmas''),
     (''comedy'', ''Comedy''),
     (''disaster'', ''Disaster''),
     (''documentary'', ''Documentary''),
     (''fantasy'', ''Fantasy''),
     (''horror'', ''Horror''),
     (''lgbt'', ''LGBT''),
     (''musical'', ''Musical''),
     (''romance'', ''Romance''),
     (''science fiction'', ''Science Fiction''),
     (''sci-fi'', ''Science Fiction''),
     (''silent'', ''Silent''),
     (''sports'', ''Sports''),
     (''superhero'', ''Superhero''),
     (''war'', ''War''),
     (''western'', ''Western'')]"

text \<open>The heading text as it is compared: \<open>clean_heading\<close> of the source.\<close>

definition clean_heading :: "string \<Rightarrow> string" where
  "clean_heading raw =
     (let heading_text = str_lower (str_strip raw);
          clean = str_strip (sub_brackets heading_text);
          clean = str_strip (sub_edit clean)
      in clean)"

text \<open>
  The loop over \<open>genre_keywords.items()\<close> with its \<open>break\<close>: the genre after the loop,
  \<open>current_genre\<close> being the genre before it.
\<close>

fun scan_keywords :: "(string \<times> string) list \<Rightarrow> string \<Rightarrow> string \<Rightarrow> string" where
  "scan_keywords [] heading current_genre = current_genre"
| "scan_keywords ((keyword, genre_name) # rest) heading current_genre =
     (if str_in keyword heading then genre_name
      else scan_keywords rest heading current_genre)"

text \<open>
  One round of the loop over \<open>all_elements\<close>; the state is \<open>current_genre\<close> and
  \<open>movies\<close>.
\<close>

fun process_element :: "string \<times> movie_data list \<Rightarrow> element \<Rightarrow> string \<times> movie_data list" where
  "process_element (current_genre, movies) (Heading raw) =
     (scan_keywords genre_keywords (clean_heading raw) current_genre, movies)"
| "process_element (current_genre, movies) (UL lis) =
     (if current_genre \<noteq> ''General''
      then (current_genre,
            movies @ List.map_filter (\<lambda>li. extract_movie_from_li li current_genre) lis)
      else (current_genre, movies))"

definition process_elements :: "element list \<Rightarrow> string \<times> movie_data list" where
  "process_elements all_elements = foldl process_element (''General'', []) all_elements"

text \<open>\<open>pd.DataFrame(movies, columns=['Title', 'Genre', 'Rating', 'Year'])\<close>\<close>

definition DataFrame :: "movie_data list \<Rightarrow> row list" where
  "DataFrame movies =
     map (\<lambda>(title, genre, rating, year).
            \<lparr>Title = Some title, Genre = Some genre, Rating = Some rating, Year = Some year\<rparr>)
         movies"

text \<open>
  The loop over \<open>patterns\<close> in \<open>scrape_general_movies\<close> for one item. The \<open>continue\<close>
  after a rejected candidate goes on with the next pattern; the \<open>break\<close> after an
  accepted one ends the loop.
\<close>

definition stoplist :: "string list" where
  "stoplist = [''list'', ''category'', ''section'', ''see also'']"

definition patterns :: "(string \<Rightarrow> (string \<times> string) option) list" where
  "patterns = [match_title_paren_year, match_title_dash_year, match_title_comma_year]"

fun try_patterns ::
  "(string \<Rightarrow> (string \<times> string) option) list \<Rightarrow> string \<Rightarrow> movie_data option" where
  "try_patterns [] text = None"
| "try_patterns (pattern # rest) text =
     (case pattern text of
        Some (g1, g2) \<Rightarrow>
          let title = str_strip g1; year = g2
          in if length title < 3 \<or> list_ex (\<lambda>word. str_in word (str_lower title)) stoplist
             then try_patterns rest text
             else Some (title, ''General'', ''N/A'', year)
      | None \<Rightarrow> try_patterns rest text)"

text \<open>
  \<open>scrape_general_movies\<close>, on the lists of the document: \<open>None\<close> when no movie is
  found.
\<close>

definition general_movies :: "string list list \<Rightarrow> movie_data list" where
  "general_movies uls = concat (map (List.map_filter (try_patterns patterns)) uls)"

definition scrape_general_movies :: "string list list \<Rightarrow> row list option" where
  "scrape_general_movies uls =
     (let movies = general_movies uls
      in if movies \<noteq> [] then Some (drop_duplicates (DataFrame movies)) else None)"

text \<open>
  \<open>scrape_wikipedia_best_movies\<close>, from the parsed page on. The lists that
  \<open>soup.find_all('ul')\<close> gives the fallback are the lists of \<open>all_elements\<close>.
\<close>

definition lists_of :: "element list \<Rightarrow> string list list" where
  "lists_of all_elements =
     List.map_filter (\<lambda>e. case e of UL lis \<Rightarrow> Some lis | Heading _ \<Rightarrow> None) all_elements"

definition scrape_wikipedia_best_movies :: "element list \<Rightarrow> row list option" where
  "scrape_wikipedia_best_movies all_elements =
     (let movies = snd (process_elements all_elements)
      in if movies = [] then scrape_general_movies (lists_of all_elements)
         else
           let df = DataFrame movies;
               df = drop_duplicates df;
               df = filter (\<lambda>r. case Title r of Some t \<Rightarrow> length t > 0 | None \<Rightarrow> False) df
           in Some df)"

section \<open>Similarity of strings\<close>

text \<open>
  \<open>difflib.SequenceMatcher\<close> of the Python library with its defaults (no junk
  function, \<open>autojunk\<close> on), as \<open>get_close_matches\<close> uses it: \<open>a\<close> is the candidate,
  \<open>b\<close> the word. The ratios are floating-point quotients \<open>2.0 * matches / length\<close> in
  the source and rational numbers here; two such quotients, and a quotient and the
  cutoff 0.6, compare in floating point as they do in the rationals as long as the
  strings are shorter than \<open>2 ^ 26\<close> characters.
\<close>

text \<open>
  The popular elements of \<open>b\<close>: when \<open>b\<close> has at least 200 elements, those that occur
  more than \<open>n // 100 + 1\<close> times. They are left out of \<open>b2j\<close>.
\<close>

definition popular :: "string \<Rightarrow> char list" where
  "popular b =
     (let n = length b
      in if n \<ge> 200
         then (let ntest = n div 100 + 1
               in filter (\<lambda>elt. count_list b elt > ntest) (remdups b))
         else [])"

text \<open>\<open>b2j.get(elt, [])\<close>: the indices of \<open>elt\<close> in \<open>b\<close>, in increasing order.\<close>

definition b2j :: "string \<Rightarrow> char \<Rightarrow> nat list" where
  "b2j b elt =
     (if elt \<in> set (popular b) then []
      else filter (\<lambda>j. b ! j = elt) [0..<length b])"

text \<open>
  \<open>j2len.get(j - 1, 0)\<close>, the dictionary \<open>j2len\<close> held as a list of pairs; for \<open>j = 0\<close> the
  key is \<open>-1\<close>, which the dictionary never holds.
\<close>

definition j2lenget :: "(nat \<times> nat) list \<Rightarrow> nat \<Rightarrow> nat" where
  "j2lenget j2len j =
     (if j = 0 then 0 else case map_of j2len (j - 1) of Some k \<Rightarrow> k | None \<Rightarrow> 0)"

text \<open>
  The loop over \<open>j\<close> in \<open>find_longest_match\<close> for one \<open>i\<close>, with its \<open>continue\<close> and
  \<open>break\<close>; the state is \<open>newj2len\<close> and the best match so far.
\<close>

fun inner_loop ::
  "nat \<Rightarrow> nat \<Rightarrow> nat \<Rightarrow> (nat \<times> nat) list \<Rightarrow> nat list
   \<Rightarrow> (nat \<times> nat) list \<times> nat \<times> nat \<times> nat \<Rightarrow> (nat \<times> nat) list \<times> nat \<times> nat \<times> nat" where
  "inner_loop i blo bhi j2len [] st = st"
| "inner_loop i blo bhi j2len (j # js) (newj2len, besti, bestj, bestsize) =
     (if j < blo then inner_loop i blo bhi j2len js (newj2len, besti, bestj, bestsize)
      else if j \<ge> bhi then (newj2len, besti, bestj, bestsize)
      else
        let k = j2lenget j2len j + 1
        in if k > bestsize
           then inner_loop i blo bhi j2len js ((j, k) # newj2len, i + 1 - k, j + 1 - k, k)
           else inner_loop i blo bhi j2len js ((j, k) # newj2len, besti, bestj, bestsize))"

text \<open>One round of the loop over \<open>i\<close>; the state is \<open>j2len\<close> and the best match.\<close>

definition outer_step ::
  "string \<Rightarrow> string \<Rightarrow> nat \<Rightarrow> nat
   \<Rightarrow> (nat \<times> nat) list \<times> nat \<times> nat \<times> nat \<Rightarrow> nat \<Rightarrow> (nat \<times> nat) list \<times> nat \<times> nat \<times> nat" where
  "outer_step a b blo bhi st i =
     (case st of (j2len, best) \<Rightarrow> inner_loop i blo bhi j2len (b2j b (a ! i)) ([], best))"

text \<open>
  The two loops that extend the best match over equal elements on each end. No
  element is junk, so the two loops after them, over junk, never run.
\<close>

function extend_back ::
  "string \<Rightarrow> string \<Rightarrow> nat \<Rightarrow> nat \<Rightarrow> nat \<times> nat \<times> nat \<Rightarrow> nat \<times> nat \<times> nat" where
  "extend_back a b alo blo (besti, bestj, bestsize) =
     (if besti > alo \<and> bestj > blo \<and> a ! (besti - 1) = b ! (bestj - 1)
      then extend_back a b alo blo (besti - 1, bestj - 1, bestsize + 1)
      else (besti, bestj, bestsize))"
  by pat_completeness auto
termination
  by (relation "measure (\<lambda>(a, b, alo, blo, besti, bestj, bestsize). besti)") auto

declare extend_back.simps [simp del]

function extend_forward ::
  "string \<Rightarrow> string \<Rightarrow> nat \<Rightarrow> nat \<Rightarrow> nat \<times> nat \<times> nat \<Rightarrow> nat \<times> nat \<times> nat" where
  "extend_forward a b ahi bhi (besti, bestj, bestsize) =
     (if besti + bestsize < ahi \<and> bestj + bestsize < bhi
         \<and> a ! (besti + bestsize) = b ! (bestj + bestsize)
      then extend_forward a b ahi bhi (besti, bestj, bestsize + 1)
      else (besti, bestj, bestsize))"
  by pat_completeness auto
termination
  by (relation "measure (\<lambda>(a, b, ahi, bhi, besti, bestj, bestsize). ahi - (besti + bestsize))")
    auto

declare extend_forward.simps [simp del]

definition find_longest_match ::
  "string \<Rightarrow> string \<Rightarrow> nat \<Rightarrow> nat \<Rightarrow> nat \<Rightarrow> nat \<Rightarrow> nat \<times> nat \<times> nat" where
  "find_longest_match a b alo ahi blo bhi =
     (let best = snd (foldl (outer_step a b blo bhi) ([], alo, blo, 0) [alo..<ahi]);
          best = extend_back a b alo blo best;
          best = extend_forward a b ahi bhi best
      in best)"

text \<open>
  The sum of the sizes of the blocks of \<open>get_matching_blocks\<close> within
  \<open>a[alo:ahi]\<close> and \<open>b[blo:bhi]\<close>: the longest match, then the blocks to its left and to
  its right. The queue of the source visits the same ranges.
\<close>

function matching_size :: "string \<Rightarrow> string \<Rightarrow> nat \<Rightarrow> nat \<Rightarrow> nat \<Rightarrow> nat \<Rightarrow> nat" where
  "matching_size a b alo ahi blo bhi =
     (case find_longest_match a b alo ahi blo bhi of
        (i, j, k) \<Rightarrow>
          if k \<noteq> 0
          then k + (if alo < i \<and> blo < j then matching_size a b alo i blo j else 0)
                 + (if i + k < ahi \<and> j + k < bhi
                    then matching_size a b (i + k) ahi (j + k) bhi else 0)
          else 0)"
  by pat_completeness auto
termination
proof -
  have get_le: "j2lenget j2len j \<le> n" if "\<forall>(j, k) \<in> set j2len. k \<le> n"
    for j2len :: "(nat \<times> nat) list" and j n
  proof (cases "j = 0")
    case True
    then show ?thesis by (simp add: j2lenget_def)
  next
    case False
    show ?thesis
    proof (cases "map_of j2len (j - 1)")
      case None
      with False show ?thesis by (simp add: j2lenget_def)
    next
      case (Some k)
      then have "(j - 1, k) \<in> set j2len" by (rule map_of_SomeD)
      with that have "k \<le> n" by auto
      with False Some show ?thesis by (simp add: j2lenget_def)
    qed
  qed
  have inner: "(\<forall>(j, k) \<in> set new'. k \<le> i + 1 - alo)
       \<and> alo \<le> besti' \<and> (besti' + bestsize' \<le> ahi \<or> bestsize' = 0 \<and> besti' = alo)"
    if old: "\<forall>(j, k) \<in> set j2len. k \<le> i - alo" and i: "alo \<le> i" "i < ahi"
      and new: "\<forall>(j, k) \<in> set new. k \<le> i + 1 - alo"
      and best: "alo \<le> besti \<and> (besti + bestsize \<le> ahi \<or> bestsize = 0 \<and> besti = alo)"
      and run: "inner_loop i blo bhi j2len js (new, besti, bestj, bestsize)
         = (new', besti', bestj', bestsize')"
    for i alo ahi blo bhi j2len js new besti bestj bestsize new' besti' bestj' bestsize'
    using new best run
  proof (induction js arbitrary: new besti bestj bestsize)
    case Nil
    then show ?case by simp
  next
    case (Cons j js)
    let ?k = "j2lenget j2len j + 1"
    have k: "?k \<le> i + 1 - alo" "0 < ?k"
      using get_le [OF old, of j] i(1) by simp_all
    show ?case
    proof (cases "j < blo")
      case True
      with Cons.prems(3) have "inner_loop i blo bhi j2len js (new, besti, bestj, bestsize)
        = (new', besti', bestj', bestsize')" by simp
      from Cons.IH [OF Cons.prems(1) Cons.prems(2) this] show ?thesis .
    next
      case False
      note nb = this
      show ?thesis
      proof (cases "j \<ge> bhi")
        case True
        with nb Cons.prems show ?thesis by simp
      next
        case False
        have n: "\<forall>(j', k') \<in> set ((j, ?k) # new). k' \<le> i + 1 - alo"
          using Cons.prems(1) k by simp
        show ?thesis
        proof (cases "?k > bestsize")
          case True
          with nb False Cons.prems(3)
          have r: "inner_loop i blo bhi j2len js ((j, ?k) # new, i + 1 - ?k, j + 1 - ?k, ?k)
            = (new', besti', bestj', bestsize')" by (simp add: Let_def)
          have "alo \<le> i + 1 - ?k
            \<and> (i + 1 - ?k + ?k \<le> ahi \<or> ?k = 0 \<and> i + 1 - ?k = alo)"
            using k i by auto
          from Cons.IH [OF n this r] show ?thesis .
        next
          case gt: False
          with nb False Cons.prems(3)
          have r: "inner_loop i blo bhi j2len js ((j, ?k) # new, besti, bestj, bestsize)
            = (new', besti', bestj', bestsize')" by (simp add: Let_def)
          from Cons.IH [OF n Cons.prems(2) r] show ?thesis .
        qed
      qed
    qed
  qed
  have outer: "alo \<le> besti' \<and> (besti' + bestsize' \<le> ahi \<or> bestsize' = 0 \<and> besti' = alo)"
    if "alo \<le> m" and "\<forall>(j, k) \<in> set j2len. k \<le> m - alo"
      and "alo \<le> besti \<and> (besti + bestsize \<le> ahi \<or> bestsize = 0 \<and> besti = alo)"
      and "foldl (outer_step a b blo bhi) (j2len, besti, bestj, bestsize) [m..<ahi]
         = (j2len', besti', bestj', bestsize')"
    for a b alo ahi blo bhi m j2len besti bestj bestsize j2len' besti' bestj' bestsize'
    using that
  proof (induction "ahi - m" arbitrary: m j2len besti bestj bestsize)
    case 0
    then show ?case by simp
  next
    case (Suc n)
    then have m: "m < ahi" by simp
    then have u: "[m..<ahi] = m # [Suc m..<ahi]" by (rule upt_conv_Cons)
    obtain new bi bj bs where st:
      "inner_loop m blo bhi j2len (b2j b (a ! m)) ([], besti, bestj, bestsize)
         = (new, bi, bj, bs)"
      by (metis prod_cases4)
    have e: "\<forall>(j, k) \<in> set []. k \<le> m + 1 - alo" by simp
    from inner [OF Suc.prems(2) Suc.prems(1) m e Suc.prems(3) st]
    have i: "\<forall>(j, k) \<in> set new. k \<le> Suc m - alo"
      "alo \<le> bi \<and> (bi + bs \<le> ahi \<or> bs = 0 \<and> bi = alo)" by simp_all
    from Suc.prems(4) u st
    have f: "foldl (outer_step a b blo bhi) (new, bi, bj, bs) [Suc m..<ahi]
         = (j2len', besti', bestj', bestsize')"
      by (simp add: outer_step_def)
    from Suc.hyps(2) have n: "n = ahi - Suc m" by simp
    from Suc.prems(1) have le: "alo \<le> Suc m" by simp
    from Suc.hyps(1) [OF n le i(1) i(2) f] show ?case .
  qed
  have ext_back: "alo \<le> besti \<and> (besti + bestsize \<le> ahi \<or> bestsize = 0 \<and> besti = alo)
     \<Longrightarrow> extend_back a b alo blo (besti, bestj, bestsize) = (besti', bestj', bestsize')
     \<Longrightarrow> alo \<le> besti' \<and> (besti' + bestsize' \<le> ahi \<or> bestsize' = 0 \<and> besti' = alo)"
    for a b alo ahi blo besti bestj bestsize besti' bestj' bestsize'
  proof (induction a b alo blo "(besti, bestj, bestsize)" arbitrary: besti bestj bestsize
      rule: extend_back.induct)
    case (1 a b alo blo besti bestj bestsize)
    have eq: "extend_back a b alo blo (besti, bestj, bestsize) =
        (if besti > alo \<and> bestj > blo \<and> a ! (besti - 1) = b ! (bestj - 1)
         then extend_back a b alo blo (besti - 1, bestj - 1, bestsize + 1)
         else (besti, bestj, bestsize))"
      by (rule extend_back.simps)
    show ?case
    proof (cases "besti > alo \<and> bestj > blo \<and> a ! (besti - 1) = b ! (bestj - 1)")
      case True
      from eq [unfolded if_P [OF True]] "1.prems"(2)
      have r: "extend_back a b alo blo (besti - 1, bestj - 1, bestsize + 1)
         = (besti', bestj', bestsize')" by simp
      from "1.prems"(1) True
      have "alo \<le> besti - 1 \<and> (besti - 1 + (bestsize + 1) \<le> ahi
         \<or> bestsize + 1 = 0 \<and> besti - 1 = alo)"
        by auto
      from "1.hyps" [OF True this r] show ?thesis .
    next
      case False
      from eq [unfolded if_not_P [OF False]] "1.prems" show ?thesis by simp
    qed
  qed
  have ext_forward: "alo \<le> besti \<and> (besti + bestsize \<le> ahi \<or> bestsize = 0 \<and> besti = alo)
     \<Longrightarrow> extend_forward a b ahi bhi (besti, bestj, bestsize) = (besti', bestj', bestsize')
     \<Longrightarrow> alo \<le> besti' \<and> (besti' + bestsize' \<le> ahi \<or> bestsize' = 0 \<and> besti' = alo)"
    for a b alo ahi bhi besti bestj bestsize besti' bestj' bestsize'
  proof (induction a b ahi bhi "(besti, bestj, bestsize)" arbitrary: besti bestj bestsize
      rule: extend_forward.induct)
    case (1 a b ahi bhi besti bestj bestsize)
    have eq: "extend_forward a b ahi bhi (besti, bestj, bestsize) =
        (if besti + bestsize < ahi \<and> bestj + bestsize < bhi
            \<and> a ! (besti + bestsize) = b ! (bestj + bestsize)
         then extend_forward a b ahi bhi (besti, bestj, bestsize + 1)
         else (besti, bestj, bestsize))"
      by (rule extend_forward.simps)
    show ?case
    proof (cases "besti + bestsize < ahi \<and> bestj + bestsize < bhi
           \<and> a ! (besti + bestsize) = b ! (bestj + bestsize)")
      case True
      from eq [unfolded if_P [OF True]] "1.prems"(2)
      have r: "extend_forward a b ahi bhi (besti, bestj, bestsize + 1)
         = (besti', bestj', bestsize')" by simp
      from "1.prems"(1) True
      have "alo \<le> besti \<and> (besti + (bestsize + 1) \<le> ahi \<or> bestsize + 1 = 0 \<and> besti = alo)"
        by auto
      from "1.hyps" [OF True this r] show ?thesis .
    next
      case False
      from eq [unfolded if_not_P [OF False]] "1.prems" show ?thesis by simp
    qed
  qed
  have bounds: "alo \<le> i \<and> (i + k \<le> ahi \<or> k = 0 \<and> i = alo)"
    if "find_longest_match a b alo ahi blo bhi = (i, j, k)" for a b alo ahi blo bhi i j k
  proof -
    obtain j2len bi bj bs where f:
      "foldl (outer_step a b blo bhi) ([], alo, blo, 0) [alo..<ahi] = (j2len, bi, bj, bs)"
      by (metis prod_cases4)
    have "alo \<le> bi \<and> (bi + bs \<le> ahi \<or> bs = 0 \<and> bi = alo)"
      by (rule outer [OF _ _ _ f]) simp_all
    moreover obtain ci cj cs where c: "extend_back a b alo blo (bi, bj, bs) = (ci, cj, cs)"
      by (metis prod_cases3)
    ultimately have "alo \<le> ci \<and> (ci + cs \<le> ahi \<or> cs = 0 \<and> ci = alo)"
      by (rule ext_back)
    moreover from that f c have "extend_forward a b ahi bhi (ci, cj, cs) = (i, j, k)"
      by (simp add: find_longest_match_def)
    ultimately show ?thesis by (rule ext_forward)
  qed
  show ?thesis
  proof (relation "measure (\<lambda>(a, b, alo, ahi, blo, bhi). ahi - alo)")
    show "wf (measure (\<lambda>(a, b, alo, ahi, blo, bhi). ahi - alo))" by simp
  next
    fix a b :: string and alo ahi blo bhi i j k :: nat and y :: "nat \<times> nat"
    assume "(i, y) = find_longest_match a b alo ahi blo bhi" "(j, k) = y" "k \<noteq> 0"
      "alo < i \<and> blo < j"
    then have "find_longest_match a b alo ahi blo bhi = (i, j, k)" by simp
    from bounds [OF this] \<open>k \<noteq> 0\<close> \<open>alo < i \<and> blo < j\<close>
    show "((a, b, alo, i, blo, j), (a, b, alo, ahi, blo, bhi))
        \<in> measure (\<lambda>(a, b, alo, ahi, blo, bhi). ahi - alo)" by auto
  next
    fix a b :: string and alo ahi blo bhi i j k :: nat and y :: "nat \<times> nat"
    assume "(i, y) = find_longest_match a b alo ahi blo bhi" "(j, k) = y" "k \<noteq> 0"
      "i + k < ahi \<and> j + k < bhi"
    then have "find_longest_match a b alo ahi blo bhi = (i, j, k)" by simp
    from bounds [OF this] \<open>k \<noteq> 0\<close> \<open>i + k < ahi \<and> j + k < bhi\<close>
    show "((a, b, i + k, ahi, j + k, bhi), (a, b, alo, ahi, blo, bhi))
        \<in> measure (\<lambda>(a, b, alo, ahi, blo, bhi). ahi - alo)" by auto
  qed
qed

declare matching_size.simps [simp del]

text \<open>\<open>_calculate_ratio\<close>\<close>

definition calculate_ratio :: "nat \<Rightarrow> nat \<Rightarrow> rat" where
  "calculate_ratio matches len = (if len \<noteq> 0 then Fract (2 * int matches) (int len) else 1)"

definition ratio :: "string \<Rightarrow> string \<Rightarrow> rat" where
  "ratio a b =
     calculate_ratio (matching_size a b 0 (length a) 0 (length b)) (length a + length b)"

text \<open>
  \<open>quick_ratio\<close>: each element of \<open>a\<close> counts while \<open>b\<close> has an occurrence of it left;
  \<open>avail\<close> holds what is left of \<open>b\<close>.
\<close>

fun quick_matches :: "string \<Rightarrow> string \<Rightarrow> nat" where
  "quick_matches [] avail = 0"
| "quick_matches (elt # rest) avail =
     (if elt \<in> set avail then quick_matches rest (remove1 elt avail) + 1
      else quick_matches rest avail)"

definition quick_ratio :: "string \<Rightarrow> string \<Rightarrow> rat" where
  "quick_ratio a b = calculate_ratio (quick_matches a b) (length a + length b)"

definition real_quick_ratio :: "string \<Rightarrow> string \<Rightarrow> rat" where
  "real_quick_ratio a b = calculate_ratio (min (length a) (length b)) (length a + length b)"

datatype error = ValueError

text \<open>
  \<open>heapq.nlargest(n, result)\<close>, which is \<open>sorted(result, reverse=True)[:n]\<close>. The
  pairs are ordered as Python orders tuples: by the score, then by the string, and
  strings by their code points.
\<close>

definition nlargest :: "nat \<Rightarrow> (rat \<times> string) list \<Rightarrow> (rat \<times> string) list" where
  "nlargest n result = take n (rev (sort result))"

definition get_close_matches ::
  "string \<Rightarrow> string list \<Rightarrow> nat \<Rightarrow> rat \<Rightarrow> error + string list" where
  "get_close_matches word possibilities n cutoff =
     (if \<not> n > 0 then Inl ValueError
      else if \<not> (0 \<le> cutoff \<and> cutoff \<le> 1) then Inl ValueError
      else
        let result = map (\<lambda>x. (ratio x word, x))
                       (filter (\<lambda>x. real_quick_ratio x word \<ge> cutoff
                                     \<and> quick_ratio x word \<ge> cutoff
                                     \<and> ratio x word \<ge> cutoff) possibilities);
            result = nlargest n result
        in Inr (map snd result))"

section \<open>Suggestions and recommendations\<close>

text \<open>\<open>s.split(',')\<close>\<close>

fun split_comma :: "string \<Rightarrow> string list" where
  "split_comma [] = [[]]"
| "split_comma (c # cs) =
     (if c = CHR '','' then [] # split_comma cs
      else (case split_comma cs of part # parts \<Rightarrow> (c # part) # parts | [] \<Rightarrow> [[c]]))"

text \<open>
  \<open>get_all_genres\<close>. The Python set \<open>genres\<close> is held as a list without repetition,
  and \<open>list(genres)\<close> enumerates it in the order of insertion; the order in which
  Python enumerates a set is not fixed by the program.
\<close>

definition set_add :: "string list \<Rightarrow> string \<Rightarrow> string list" where
  "set_add genres g = (if g \<in> set genres then genres else genres @ [g])"

definition add_parts :: "string list \<Rightarrow> string list \<Rightarrow> string list" where
  "add_parts genres genre_parts =
     foldl (\<lambda>genres part.
              let clean_genre = str_lower (str_strip part)
              in if clean_genre \<noteq> [] \<and> clean_genre \<notin> set [''unknown'', ''n/a'']
                 then set_add genres clean_genre else genres)
       genres genre_parts"

definition get_all_genres :: "row list \<Rightarrow> string list" where
  "get_all_genres df =
     foldl (\<lambda>genres g. add_parts genres (split_comma g)) []
       (List.map_filter Genre df)"

text \<open>
  \<open>suggestions[genre] = matches\<close> on a dictionary held in its insertion order: a key
  that is present keeps its place.
\<close>

definition dict_set ::
  "(string \<times> string list) list \<Rightarrow> string \<Rightarrow> string list \<Rightarrow> (string \<times> string list) list" where
  "dict_set d k v =
     (if k \<in> fst ` set d then map (\<lambda>(k', v'). if k' = k then (k', v) else (k', v')) d
      else d @ [(k, v)])"

text \<open>The loop of \<open>get_genre_suggestions\<close>; an exception of \<open>get_close_matches\<close> ends it.\<close>

fun suggestions_loop ::
  "string list \<Rightarrow> string list \<Rightarrow> rat \<Rightarrow> (string \<times> string list) list
   \<Rightarrow> error + (string \<times> string list) list" where
  "suggestions_loop [] all_genres cutoff suggestions = Inr suggestions"
| "suggestions_loop (genre # rest) all_genres cutoff suggestions =
     (case get_close_matches (str_lower genre) all_genres 3 cutoff of
        Inl e \<Rightarrow> Inl e
      | Inr matches \<Rightarrow>
          if matches \<noteq> []
          then suggestions_loop rest all_genres cutoff (dict_set suggestions genre matches)
          else suggestions_loop rest all_genres cutoff suggestions)"

definition get_genre_suggestions ::
  "string list \<Rightarrow> string list \<Rightarrow> rat \<Rightarrow> error + (string \<times> string list) list" where
  "get_genre_suggestions chosen_genres all_genres cutoff =
     suggestions_loop chosen_genres all_genres cutoff []"

text \<open>
  \<open>df.sample(n)\<close>: without replacement, the rows at the first \<open>n\<close> places of a random
  permutation of the row positions. \<open>permutation\<close> is the random source
  (\<open>permutation(pop_size)\<close> of NumPy): for a population size it returns the
  permutation drawn. A negative \<open>n\<close> and an \<open>n\<close> above the number of rows raise.
\<close>

definition sample :: "(nat \<Rightarrow> nat list) \<Rightarrow> int \<Rightarrow> row list \<Rightarrow> error + row list" where
  "sample permutation n df =
     (if n < 0 then Inl ValueError
      else if nat n > length df then Inl ValueError
      else Inr (map (\<lambda>i. df ! i) (take (nat n) (permutation (length df)))))"

text \<open>
  \<open>recommend_movies\<close> prints; the model returns what it prints: the suggestions when
  no record matches, the recommendations otherwise.
\<close>

datatype outcome = Suggested "(string \<times> string list) list" | Recommended "row list"

definition recommend_movies ::
  "(nat \<Rightarrow> nat list) \<Rightarrow> row list \<Rightarrow> string list \<Rightarrow> int \<Rightarrow> error + outcome" where
  "recommend_movies permutation df chosen_genres num_recommendations =
     (let filtered = filter_movies_by_genres df chosen_genres
      in if filtered = []
         then
           let all_genres = get_all_genres df
           in (case get_genre_suggestions chosen_genres all_genres (6 / 10) of
                 Inl e \<Rightarrow> Inl e
               | Inr suggestions \<Rightarrow> Inr (Suggested suggestions))
         else
           let sample_size = min num_recommendations (int (length filtered))
           in (case sample permutation sample_size filtered of
                 Inl e \<Rightarrow> Inl e
               | Inr recommendations \<Rightarrow> Inr (Recommended recommendations)))"

section \<open>Reference definitions for the record store and the genre filter\<close>

text \<open>The three cleaning steps in the order drop, normalize, deduplicate.\<close>

definition cleaning :: "csv_line list \<Rightarrow> row list" where
  "cleaning ls = drop_duplicates (map normalize_row (dropna (read_csv ls)))"

text \<open>The query normalization of the filter: trimmed, lowercased, spaces removed.\<close>

definition normalize_query :: "string \<Rightarrow> string" where
  "normalize_query q = str_replace_space (str_lower (str_strip q))"

text \<open>
  The filter as specified: the query normalization is that of the store (lowercase,
  spaces removed), and a record is selected when its normalized genre contains a
  normalized query.
\<close>

definition spec_normalize_query :: "string \<Rightarrow> string" where
  "spec_normalize_query q = str_replace_space (str_lower q)"

definition spec_genre_filter :: "row list \<Rightarrow> string list \<Rightarrow> row list" where
  "spec_genre_filter df genres =
     filter (\<lambda>r. list_ex (\<lambda>q. str_in (spec_normalize_query q)
                                 (normalize_genre (str_of_cell (Genre r)))) genres) df"

text \<open>A store of three films with the genres Action, Action Comedy and Drama.\<close>

definition store3 :: "csv_line list" where
  "store3 =
    [\<lparr>title_field = ''Heat'', genre_field = ''Action'', rating_field = ''N/A'',
      year_field = ''1995''\<rparr>,
     \<lparr>title_field = ''Hot Fuzz'', genre_field = ''Action Comedy'', rating_field = ''N/A'',
      year_field = ''2007''\<rparr>,
     \<lparr>title_field = ''Ikiru'', genre_field = ''Drama'', rating_field = ''N/A'',
      year_field = ''1952''\<rparr>]"


section \<open>Reference definitions for the record extractor\<close>

text \<open>
  The text begins with a title segment \<open>t\<close> (no newline in it), then whitespace, then
  the four digits \<open>y\<close> in parentheses.
\<close>

definition title_then_year :: "string \<Rightarrow> string \<Rightarrow> string \<Rightarrow> bool" where
  "title_then_year text t y \<longleftrightarrow>
     (\<exists>ws rest. text = t @ ws @ ''('' @ y @ '')'' @ rest \<and> list_all dot t
        \<and> ws \<noteq> [] \<and> list_all isspace ws \<and> length y = 4 \<and> list_all isdigit y)"

text \<open>
  The first attempt in the words of the specification: the text begins with a title
  segment immediately followed by a 4-digit year in parentheses.
\<close>

definition stated_title_year :: "string \<Rightarrow> string \<Rightarrow> string \<Rightarrow> bool" where
  "stated_title_year text t y \<longleftrightarrow>
     (\<exists>rest. text = t @ ''('' @ y @ '')'' @ rest \<and> length y = 4 \<and> list_all isdigit y)"

text \<open>
  The text begins with a clause \<open>c\<close> that holds no sentence-ending punctuation and is
  followed by whitespace and one of the verb cues.
\<close>

definition narrative_clause :: "string \<Rightarrow> string \<Rightarrow> bool" where
  "narrative_clause text c \<longleftrightarrow>
     (\<exists>ws cue rest. text = c @ ws @ cue @ rest \<and> c \<noteq> [] \<and> list_all not_sentence_end c
        \<and> ws \<noteq> [] \<and> list_all isspace ws \<and> cue \<in> set verb_cues)"

text \<open>
  A four-digit token beginning with 19 or 20 that ends at a word boundary.
\<close>

definition year_shape :: "string \<Rightarrow> string \<Rightarrow> bool" where
  "year_shape y post \<longleftrightarrow>
     length y = 4 \<and> (take 2 y = ''19'' \<or> take 2 y = ''20'') \<and> list_all isdigit y
     \<and> (post = [] \<or> \<not> isword (hd post))"

text \<open>
  After \<open>pre\<close> the text holds the standalone four-digit token \<open>y\<close> that begins with 19 or
  20: no word character stands directly before or after it.
\<close>

definition year_at :: "string \<Rightarrow> string \<Rightarrow> string \<Rightarrow> bool" where
  "year_at text pre y \<longleftrightarrow>
     (\<exists>post. text = pre @ y @ post \<and> length y = 4 \<and> (take 2 y = ''19'' \<or> take 2 y = ''20'')
        \<and> list_all isdigit y
        \<and> (pre = [] \<or> \<not> isword (last pre)) \<and> (post = [] \<or> \<not> isword (hd post)))"

text \<open>
  \<open>year_at\<close> on a suffix of the text, \<open>prev\<close> telling whether a word character stands
  before the suffix.
\<close>

definition year_at_from :: "bool \<Rightarrow> string \<Rightarrow> string \<Rightarrow> string \<Rightarrow> bool" where
  "year_at_from prev s pre y \<longleftrightarrow>
     (\<exists>post. s = pre @ y @ post \<and> year_shape y post
        \<and> (if pre = [] then \<not> prev else \<not> isword (last pre)))"

text \<open>
  The title of the narrative pattern: the clause with its parenthetical asides
  stripped.
\<close>

definition clause_title :: "string \<Rightarrow> string" where
  "clause_title c = str_strip (sub_parens (str_strip c))"

text \<open>
  The year of the narrative pattern: the first standalone year of the text, or the
  empty string.
\<close>

definition year_of :: "string \<Rightarrow> string" where
  "year_of text = (case search_year text of Some y \<Rightarrow> y | None \<Rightarrow> [])"

section \<open>Reference definitions for the fallback extractor\<close>

text \<open>
  The rejection heuristic of the fallback: a title shorter than 3 characters, or one
  whose lowercased form contains a word of the stoplist.
\<close>

definition rejected :: "string \<Rightarrow> bool" where
  "rejected title \<longleftrightarrow>
     length title < 3 \<or> list_ex (\<lambda>word. str_in word (str_lower title)) stoplist"

text \<open>
  The record a pattern offers for an item: none when the pattern does not match or its
  title is rejected.
\<close>

definition candidate :: "(string \<Rightarrow> (string \<times> string) option) \<Rightarrow> string \<Rightarrow> movie_data option" where
  "candidate pattern text =
     (case pattern text of
        Some (g1, g2) \<Rightarrow>
          if rejected (str_strip g1) then None
          else Some (str_strip g1, ''General'', ''N/A'', g2)
      | None \<Rightarrow> None)"

text \<open>
  \<open>Title - Year\<close>: a title segment, optional whitespace, a hyphen, optional whitespace,
  four digits.
\<close>

definition title_dash_year :: "string \<Rightarrow> string \<Rightarrow> string \<Rightarrow> bool" where
  "title_dash_year text t y \<longleftrightarrow>
     (\<exists>ws1 ws2 rest. text = t @ ws1 @ ''-'' @ ws2 @ y @ rest \<and> list_all dot t
        \<and> list_all isspace ws1 \<and> list_all isspace ws2 \<and> length y = 4 \<and> list_all isdigit y)"

text \<open>
  \<open>Title, Year\<close>: a title segment, a comma, optional whitespace, four digits.
\<close>

definition title_comma_year :: "string \<Rightarrow> string \<Rightarrow> string \<Rightarrow> bool" where
  "title_comma_year text t y \<longleftrightarrow>
     (\<exists>ws rest. text = t @ '','' @ ws @ y @ rest \<and> list_all dot t
        \<and> list_all isspace ws \<and> length y = 4 \<and> list_all isdigit y)"

text \<open>
  Among the ways a pattern reads the text, the one with the shortest title segment.
\<close>

definition shortest :: "(string \<Rightarrow> string \<Rightarrow> bool) \<Rightarrow> string \<Rightarrow> string \<Rightarrow> bool" where
  "shortest P t y \<longleftrightarrow> P t y \<and> (\<forall>t' y'. P t' y' \<longrightarrow> length t \<le> length t')"

section \<open>Reference definitions for the suggestion engine\<close>

text \<open>
  The candidate vocabulary of a store: the genre values of its rows split on commas,
  each part trimmed and lowercased, without the empty part, \<open>unknown\<close> and \<open>n/a\<close>.
\<close>

definition vocabulary :: "row list \<Rightarrow> string set" where
  "vocabulary df =
     {clean. \<exists>r g part. r \<in> set df \<and> Genre r = Some g \<and> part \<in> set (split_comma g)
        \<and> clean = str_lower (str_strip part)
        \<and> clean \<noteq> [] \<and> clean \<noteq> ''unknown'' \<and> clean \<noteq> ''n/a''}"

text \<open>
  A candidate passes the three tests of \<open>get_close_matches\<close>: the two upper bounds of
  the score and the score itself reach the cutoff.
\<close>

definition eligible :: "rat \<Rightarrow> string \<Rightarrow> string \<Rightarrow> bool" where
  "eligible cutoff word x \<longleftrightarrow>
     real_quick_ratio x word \<ge> cutoff \<and> quick_ratio x word \<ge> cutoff \<and> ratio x word \<ge> cutoff"

text \<open>
  The order of the suggestions for a word: the higher score first, and of two
  candidates with the same score the greater string first.
\<close>

definition before :: "string \<Rightarrow> string \<Rightarrow> string \<Rightarrow> bool" where
  "before word x y \<longleftrightarrow>
     ratio x word > ratio y word \<or> (ratio x word = ratio y word \<and> x \<ge> y)"

text \<open>
  The suggestions as stated: the candidates with a score of at least 0.6 by descending
  score, candidates with the same score in the order of the enumeration (the sort is
  stable), and the first three of them.
\<close>

definition spec_close_matches :: "string \<Rightarrow> string list \<Rightarrow> string list" where
  "spec_close_matches word all_genres =
     take 3 (sort_key (\<lambda>x. - ratio x word) (filter (\<lambda>x. ratio x word \<ge> 6 / 10) all_genres))"

text \<open>A store of two films whose genres drama and drame are equally close to dram.\<close>

definition tie_store :: "row list" where
  "tie_store =
     [\<lparr>Title = Some ''Heat'', Genre = Some ''drama,action'', Rating = None, Year = Some ''1995''\<rparr>,
      \<lparr>Title = Some ''Up'', Genre = Some ''drame,unknown'', Rating = None, Year = Some ''2009''\<rparr>]"

text \<open>
  A matching block within \<open>a[alo:ahi]\<close> and \<open>b[blo:bhi]\<close>: \<open>k\<close> equal elements from \<open>i\<close> and
  from \<open>j\<close>.
\<close>

definition block :: "string \<Rightarrow> string \<Rightarrow> nat \<Rightarrow> nat \<Rightarrow> nat \<Rightarrow> nat \<Rightarrow> nat \<times> nat \<times> nat \<Rightarrow> bool" where
  "block a b alo ahi blo bhi m \<longleftrightarrow>
     (case m of (i, j, k) \<Rightarrow>
        alo \<le> i \<and> i + k \<le> ahi \<and> blo \<le> j \<and> j + k \<le> bhi
        \<and> (\<forall>t<k. a ! (i + t) = b ! (j + t)))"

text \<open>
  The entries of \<open>j2len\<close> after the round of \<open>find_longest_match\<close> for the element before
  \<open>e\<close>: for the key \<open>j\<close>, a run of equal elements that ends before \<open>e\<close> in \<open>a\<close> and at \<open>j\<close> in
  \<open>b\<close>.
\<close>

definition ends :: "string \<Rightarrow> string \<Rightarrow> nat \<Rightarrow> nat \<Rightarrow> nat \<Rightarrow> nat \<Rightarrow> (nat \<times> nat) list \<Rightarrow> bool" where
  "ends a b alo blo bhi e j2len \<longleftrightarrow>
     (\<forall>j k. (j, k) \<in> set j2len \<longrightarrow>
        k \<le> e - alo \<and> k \<le> j + 1 - blo \<and> j < bhi
        \<and> (\<forall>t<k. a ! (e - k + t) = b ! (j + 1 - k + t)))"

section \<open>Properties of the string operations\<close>

lemma lower_char_idem: "lower_char (lower_char c) = lower_char c"
  unfolding lower_char_def Let_def by (auto simp: of_char_of)

lemma str_lower_normalize_genre: "str_lower (normalize_genre g) = normalize_genre g"
  unfolding normalize_genre_def str_replace_space_def str_lower_def
  by (rule map_idI) (auto simp: lower_char_idem)

lemma normalize_genre_idem: "normalize_genre (normalize_genre g) = normalize_genre g"
  using str_lower_normalize_genre [of g]
  by (simp add: normalize_genre_def str_replace_space_def)

section \<open>Properties of the record store\<close>

lemma drop_dups_from_keys:
  "dup_key r \<in> set seen \<Longrightarrow> r \<notin> set (drop_dups_from seen rs)"
  by (induction rs arbitrary: seen) auto

lemma drop_dups_from_set: "r \<in> set (drop_dups_from seen rs) \<Longrightarrow> r \<in> set rs"
  by (induction rs arbitrary: seen) (auto split: if_splits)

lemma drop_dups_from_distinct: "distinct (map dup_key (drop_dups_from seen rs))"
proof (induction rs arbitrary: seen)
  case Nil
  then show ?case by simp
next
  case (Cons x xs)
  have "dup_key x \<notin> dup_key ` set (drop_dups_from (dup_key x # seen) xs)"
    using drop_dups_from_keys [of _ "dup_key x # seen" xs] by force
  with Cons show ?case by simp
qed

lemma drop_dups_from_subseq: "subseq (drop_dups_from seen rs) rs"
  by (induction rs arbitrary: seen) auto

lemma drop_dups_from_first:
  "r \<in> set (drop_dups_from seen rs) \<Longrightarrow> find (\<lambda>r'. dup_key r' = dup_key r) rs = Some r"
proof (induction rs arbitrary: seen)
  case Nil
  then show ?case by simp
next
  case (Cons x xs)
  show ?case
  proof (cases "dup_key x \<in> set seen")
    case True
    with Cons.prems have in_rest: "r \<in> set (drop_dups_from seen xs)" by simp
    then have "dup_key r \<notin> set seen" using drop_dups_from_keys by blast
    with True have "dup_key x \<noteq> dup_key r" by auto
    with Cons.IH [OF in_rest] show ?thesis by simp
  next
    case False
    with Cons.prems have "r = x \<or> r \<in> set (drop_dups_from (dup_key x # seen) xs)" by simp
    then show ?thesis
    proof
      assume "r = x"
      then show ?thesis by simp
    next
      assume in_rest: "r \<in> set (drop_dups_from (dup_key x # seen) xs)"
      then have "dup_key r \<notin> set (dup_key x # seen)" using drop_dups_from_keys by blast
      then have "dup_key x \<noteq> dup_key r" by auto
      with Cons.IH [OF in_rest] show ?thesis by simp
    qed
  qed
qed

lemma drop_dups_from_cover:
  "dup_key ` set (drop_dups_from seen rs) = dup_key ` set rs - set seen"
  by (induction rs arbitrary: seen) auto

lemma read_cell_nonempty: "read_cell s = Some t \<Longrightarrow> t \<noteq> []"
  by (auto simp: read_cell_def na_values_def split: if_splits)

lemma load_Some:
  "load_and_clean_movies f = Some df \<Longrightarrow> \<exists>ls. f = Table ls \<and> df = cleaning ls"
  by (auto simp: load_and_clean_movies_def cleaning_def Let_def
      split: csv_file.splits if_splits)

lemma cleaning_rows:
  assumes "r \<in> set (cleaning ls)"
  shows "\<exists>l \<in> set ls. \<exists>t g. read_cell (title_field l) = Some t
     \<and> read_cell (genre_field l) = Some g
     \<and> r = \<lparr>Title = Some t, Genre = Some (normalize_genre g),
            Rating = read_cell (rating_field l), Year = read_cell (year_field l)\<rparr>"
proof -
  from assms have "r \<in> set (map normalize_row (dropna (read_csv ls)))"
    unfolding cleaning_def drop_duplicates_def by (rule drop_dups_from_set)
  then show ?thesis
    by (fastforce simp: dropna_def read_csv_def normalize_row_def)
qed

lemma cleaning_genre:
  assumes "r \<in> set (cleaning ls)"
  shows "\<exists>g. Genre r = Some g \<and> normalize_genre g = g"
  using cleaning_rows [OF assms] by (auto simp: normalize_genre_idem)

lemma cleaning_title:
  assumes "r \<in> set (cleaning ls)"
  shows "\<exists>t. Title r = Some t \<and> 0 < length t"
  using cleaning_rows [OF assms] by (auto dest: read_cell_nonempty)

lemma load_store3:
  "load_and_clean_movies (Table store3) =
     Some [\<lparr>Title = Some ''Heat'', Genre = Some ''action'', Rating = None,
            Year = Some ''1995''\<rparr>,
           \<lparr>Title = Some ''Hot Fuzz'', Genre = Some ''actioncomedy'', Rating = None,
            Year = Some ''2007''\<rparr>,
           \<lparr>Title = Some ''Ikiru'', Genre = Some ''drama'', Rating = None,
            Year = Some ''1952''\<rparr>]"
  by code_simp




text \<open>
  C6. In a collection returned by a successful load the (title, year) pairs are
  pairwise distinct and every title is present with length greater than 0. The
  collection is a subsequence of the cleaned lines (their order is kept), each of its
  rows is the first cleaned line with its (title, year) pair, and every pair of the
  cleaned lines is represented.
\<close>

theorem load_and_clean_movies_distinct:
  assumes "load_and_clean_movies f = Some df"
  shows "distinct (map (\<lambda>r. (Title r, Year r)) df)
   \<and> (\<forall>r \<in> set df. \<exists>t. Title r = Some t \<and> 0 < length t)
   \<and> (\<exists>ls. f = Table ls
        \<and> subseq df (map normalize_row (dropna (read_csv ls)))
        \<and> (\<forall>r \<in> set df.
             find (\<lambda>r'. (Title r', Year r') = (Title r, Year r))
               (map normalize_row (dropna (read_csv ls))) = Some r)
        \<and> (\<forall>r \<in> set (map normalize_row (dropna (read_csv ls))).
             \<exists>r' \<in> set df. (Title r', Year r') = (Title r, Year r)))"
proof -
  from assms obtain ls where f: "f = Table ls" and df: "df = cleaning ls"
    using load_Some by blast
  let ?rows = "map normalize_row (dropna (read_csv ls))"
  have df': "df = drop_dups_from [] ?rows"
    by (simp add: df cleaning_def drop_duplicates_def)
  have key: "(\<lambda>r. (Title r, Year r)) = dup_key"
    by (simp add: dup_key_def fun_eq_iff)
  have "distinct (map dup_key df)"
    unfolding df' by (rule drop_dups_from_distinct)
  then have d: "distinct (map (\<lambda>r. (Title r, Year r)) df)"
    by (simp add: key)
  have t: "\<forall>r \<in> set df. \<exists>t. Title r = Some t \<and> 0 < length t"
    using cleaning_title df by blast
  have s: "subseq df ?rows"
    unfolding df' by (rule drop_dups_from_subseq)
  have fst: "\<forall>r \<in> set df. find (\<lambda>r'. (Title r', Year r') = (Title r, Year r)) ?rows = Some r"
    using drop_dups_from_first [of _ "[]" ?rows] by (simp add: df' dup_key_def)
  have "dup_key ` set df = dup_key ` set ?rows"
    unfolding df' by (simp only: drop_dups_from_cover) simp
  then have "\<forall>r \<in> set ?rows. \<exists>r' \<in> set df. dup_key r' = dup_key r"
    by (metis (no_types, lifting) imageE imageI)
  then have c: "\<forall>r \<in> set ?rows. \<exists>r' \<in> set df. (Title r', Year r') = (Title r, Year r)"
    by (simp add: dup_key_def)
  show ?thesis using d t f s fst c by blast
qed

theorem load_and_clean_movies_distinct_witness:
  "load_and_clean_movies
     (Table [\<lparr>title_field = ''Heat'', genre_field = ''Action'', rating_field = ''N/A'',
              year_field = ''1995''\<rparr>,
             \<lparr>title_field = '''', genre_field = ''Action'', rating_field = ''N/A'',
              year_field = ''1994''\<rparr>,
             \<lparr>title_field = ''Heat'', genre_field = ''Drama'', rating_field = ''N/A'',
              year_field = ''1995''\<rparr>])
     = Some [\<lparr>Title = Some ''Heat'', Genre = Some ''action'', Rating = None,
              Year = Some ''1995''\<rparr>]
   \<and> distinct (map (\<lambda>r. (Title r, Year r))
       [\<lparr>Title = Some ''Heat'', Genre = Some ''action'', Rating = None,
         Year = Some ''1995''\<rparr>])
   \<and> (\<exists>t. Title \<lparr>Title = Some ''Heat'', Genre = Some ''action'', Rating = None,
                   Year = Some ''1995''\<rparr> = Some t \<and> 0 < length t)"
proof -
  have l: "load_and_clean_movies
     (Table [\<lparr>title_field = ''Heat'', genre_field = ''Action'', rating_field = ''N/A'',
              year_field = ''1995''\<rparr>,
             \<lparr>title_field = '''', genre_field = ''Action'', rating_field = ''N/A'',
              year_field = ''1994''\<rparr>,
             \<lparr>title_field = ''Heat'', genre_field = ''Drama'', rating_field = ''N/A'',
              year_field = ''1995''\<rparr>])
     = Some [\<lparr>Title = Some ''Heat'', Genre = Some ''action'', Rating = None,
              Year = Some ''1995''\<rparr>]"
    by code_simp
  from load_and_clean_movies_distinct [OF l] l show ?thesis by simp
qed

section \<open>Properties of the genre filter\<close>

text \<open>
  C10. With an empty list of genre strings no record matches: the filter returns the
  empty subset of any store.
\<close>

theorem filter_movies_by_genres_no_genres: "filter_movies_by_genres df [] = []"
  by (simp add: filter_movies_by_genres_def)

theorem filter_movies_by_genres_no_genres_witness:
  "filter_movies_by_genres (cleaning store3) [] = []"
  using filter_movies_by_genres_no_genres [of "cleaning store3"] by simp

text \<open>
  C3 (as amended). On a cleaned store the filter trims, lowercases and removes the
  spaces of each query string, and returns exactly the records whose stored genre,
  which is in normalized form, contains at least one normalized query string.
\<close>

theorem filter_movies_by_genres_cleaned:
  assumes "load_and_clean_movies f = Some df"
  shows "filter_movies_by_genres df genres =
     filter (\<lambda>r. \<exists>g. Genre r = Some g \<and> normalize_genre g = g \<and>
                    (\<exists>q \<in> set genres. str_in (normalize_query q) g)) df"
proof -
  from assms obtain ls where df: "df = cleaning ls" using load_Some by blast
  have "list_ex (\<lambda>gen. str_in gen (str_lower (str_of_cell (Genre r))))
          (map normalize_query genres)
      = (\<exists>g. Genre r = Some g \<and> normalize_genre g = g \<and>
              (\<exists>q \<in> set genres. str_in (normalize_query q) g))"
    if "r \<in> set df" for r
  proof -
    from that obtain g where g: "Genre r = Some g" "normalize_genre g = g"
      using cleaning_genre df by blast
    then have "str_lower g = g" using str_lower_normalize_genre [of g] by simp
    with g show ?thesis
      by (auto simp: list_ex_iff str_of_cell_def)
  qed
  then show ?thesis
    unfolding filter_movies_by_genres_def Let_def
    by (intro filter_cong) (auto simp: normalize_query_def [abs_def])
qed

theorem filter_movies_by_genres_cleaned_witness:
  "load_and_clean_movies (Table store3) =
     Some [\<lparr>Title = Some ''Heat'', Genre = Some ''action'', Rating = None,
            Year = Some ''1995''\<rparr>,
           \<lparr>Title = Some ''Hot Fuzz'', Genre = Some ''actioncomedy'', Rating = None,
            Year = Some ''2007''\<rparr>,
           \<lparr>Title = Some ''Ikiru'', Genre = Some ''drama'', Rating = None,
            Year = Some ''1952''\<rparr>]
   \<and> filter_movies_by_genres
       [\<lparr>Title = Some ''Heat'', Genre = Some ''action'', Rating = None,
         Year = Some ''1995''\<rparr>,
        \<lparr>Title = Some ''Hot Fuzz'', Genre = Some ''actioncomedy'', Rating = None,
         Year = Some ''2007''\<rparr>,
        \<lparr>Title = Some ''Ikiru'', Genre = Some ''drama'', Rating = None,
         Year = Some ''1952''\<rparr>] [''action'']
     = [\<lparr>Title = Some ''Heat'', Genre = Some ''action'', Rating = None,
         Year = Some ''1995''\<rparr>,
        \<lparr>Title = Some ''Hot Fuzz'', Genre = Some ''actioncomedy'', Rating = None,
         Year = Some ''2007''\<rparr>]"
proof -
  have n: "normalize_query ''action'' = ''action''" by code_simp
  have a: "normalize_genre ''action'' = ''action''"
    "normalize_genre ''actioncomedy'' = ''actioncomedy''"
    "normalize_genre ''drama'' = ''drama''" by code_simp+
  have s: "str_in ''action'' ''action''" "str_in ''action'' ''actioncomedy''"
    "\<not> str_in ''action'' ''drama''"
    by code_simp+
  show ?thesis
    using filter_movies_by_genres_cleaned [OF load_store3, of "[''action'']"] load_store3
    by (simp add: n a s)
qed

text \<open>
  C3 as stated fails: the filter also trims the query, so a query with a leading tab
  selects a record that lowercasing and removing spaces alone would not select.
\<close>

theorem filter_movies_by_genres_trim_counterexample:
  "load_and_clean_movies
     (Table [\<lparr>title_field = ''Heat'', genre_field = ''Action'', rating_field = ''N/A'',
              year_field = ''1995''\<rparr>])
     = Some [\<lparr>Title = Some ''Heat'', Genre = Some ''action'', Rating = None,
              Year = Some ''1995''\<rparr>]
   \<and> filter_movies_by_genres
       [\<lparr>Title = Some ''Heat'', Genre = Some ''action'', Rating = None,
         Year = Some ''1995''\<rparr>] [CHR 0x09 # ''action'']
     = [\<lparr>Title = Some ''Heat'', Genre = Some ''action'', Rating = None,
         Year = Some ''1995''\<rparr>]
   \<and> spec_genre_filter
       [\<lparr>Title = Some ''Heat'', Genre = Some ''action'', Rating = None,
         Year = Some ''1995''\<rparr>] [CHR 0x09 # ''action''] = []"
  by code_simp

section \<open>Properties of the heading-state extractor\<close>

lemma scan_keywords_first:
  "i < length kws \<Longrightarrow> str_in (fst (kws ! i)) h \<Longrightarrow> (\<forall>j < i. \<not> str_in (fst (kws ! j)) h)
   \<Longrightarrow> scan_keywords kws h cur = snd (kws ! i)"
proof (induction kws h cur arbitrary: i rule: scan_keywords.induct)
  case (1 heading current_genre)
  then show ?case by simp
next
  case (2 keyword genre_name rest heading current_genre)
  show ?case
  proof (cases i)
    case 0
    with 2 show ?thesis by simp
  next
    case (Suc n)
    with "2.prems" have no: "\<not> str_in keyword heading" by fastforce
    from Suc "2.prems" have "n < length rest" "str_in (fst (rest ! n)) heading"
      "\<forall>j < n. \<not> str_in (fst (rest ! j)) heading" by auto
    with "2.IH" [OF no] have "scan_keywords rest heading current_genre = snd (rest ! n)"
      by blast
    with no Suc show ?thesis by simp
  qed
qed

lemma scan_keywords_none:
  "(\<forall>k \<in> set (map fst kws). \<not> str_in k h) \<Longrightarrow> scan_keywords kws h cur = cur"
  by (induction kws h cur rule: scan_keywords.induct) auto

text \<open>
  C1. The keywords are scanned in the order action, animation, christmas, comedy,
  disaster, documentary, fantasy, horror, lgbt, musical, romance, science fiction,
  sci-fi, silent, sports, superhero, war, western. On a heading, the first keyword of
  that order that occurs in the normalized heading text sets \<open>current_genre\<close> to its
  label, whatever keywords follow it; a heading with no keyword leaves \<open>current_genre\<close>
  unchanged. The records collected so far are not touched.
\<close>

theorem heading_first_keyword_wins:
  "map fst genre_keywords =
     [''action'', ''animation'', ''christmas'', ''comedy'', ''disaster'', ''documentary'',
      ''fantasy'', ''horror'', ''lgbt'', ''musical'', ''romance'', ''science fiction'',
      ''sci-fi'', ''silent'', ''sports'', ''superhero'', ''war'', ''western'']
   \<and> (\<forall>i < length genre_keywords.
        str_in (fst (genre_keywords ! i)) (clean_heading raw)
        \<and> (\<forall>j < i. \<not> str_in (fst (genre_keywords ! j)) (clean_heading raw))
        \<longrightarrow> process_element (current_genre, movies) (Heading raw)
              = (snd (genre_keywords ! i), movies))
   \<and> ((\<forall>k \<in> set (map fst genre_keywords). \<not> str_in k (clean_heading raw))
        \<longrightarrow> process_element (current_genre, movies) (Heading raw) = (current_genre, movies))"
proof -
  have "map fst genre_keywords =
     [''action'', ''animation'', ''christmas'', ''comedy'', ''disaster'', ''documentary'',
      ''fantasy'', ''horror'', ''lgbt'', ''musical'', ''romance'', ''science fiction'',
      ''sci-fi'', ''silent'', ''sports'', ''superhero'', ''war'', ''western'']"
    by (simp add: genre_keywords_def)
  then show ?thesis
    using scan_keywords_first [of _ genre_keywords "clean_heading raw" current_genre]
      scan_keywords_none [of genre_keywords "clean_heading raw" current_genre]
    by simp
qed

text \<open>
  A heading with both sci-fi and fantasy in it: fantasy is the earlier keyword, so the
  genre becomes Fantasy.
\<close>

theorem heading_first_keyword_wins_witness:
  "str_in ''sci-fi'' (clean_heading ''Sci-Fi and Fantasy Films [edit]'')
   \<and> str_in ''fantasy'' (clean_heading ''Sci-Fi and Fantasy Films [edit]'')
   \<and> process_element (''General'', []) (Heading ''Sci-Fi and Fantasy Films [edit]'')
       = (''Fantasy'', [])"
proof -
  let ?raw = "''Sci-Fi and Fantasy Films [edit]''"
  have c: "clean_heading ?raw = ''sci-fi and fantasy films''" by code_simp
  have a: "str_in ''sci-fi'' ''sci-fi and fantasy films''"
    "str_in ''fantasy'' ''sci-fi and fantasy films''" by code_simp+
  have k: "genre_keywords ! 6 = (''fantasy'', ''Fantasy'')" "(6::nat) < length genre_keywords"
    by (simp_all add: genre_keywords_def)
  have n: "\<forall>j < 6. \<not> str_in (fst (genre_keywords ! j)) ''sci-fi and fantasy films''"
  proof (intro allI impI)
    fix j :: nat
    assume "j < 6"
    then consider "j = 0" | "j = 1" | "j = 2" | "j = 3" | "j = 4" | "j = 5" by linarith
    then show "\<not> str_in (fst (genre_keywords ! j)) ''sci-fi and fantasy films''"
      by cases (simp_all add: genre_keywords_def, code_simp+)
  qed
  from heading_first_keyword_wins [of ?raw "''General''" "[]"] k a n c
  have "process_element (''General'', []) (Heading ?raw) = (''Fantasy'', [])"
    by (metis fst_conv snd_conv)
  with a c show ?thesis by simp
qed

lemma in_map_filter:
  "y \<in> set (List.map_filter f xs) \<longleftrightarrow> (\<exists>x \<in> set xs. f x = Some y)"
  by (induction xs) (auto split: option.splits)

lemma extract_genre:
  "extract_movie_from_li li g = Some (t, g', r, y) \<Longrightarrow> g' = g"
  by (auto simp: extract_movie_from_li_def Let_def split: option.splits if_splits)

lemma process_element_inv:
  assumes "\<forall>m \<in> set ms. fst (snd m) \<noteq> ''General''"
  shows "\<forall>m \<in> set (snd (process_element (cur, ms) e)). fst (snd m) \<noteq> ''General''"
proof (cases e)
  case (Heading raw)
  with assms show ?thesis by simp
next
  case (UL lis)
  with assms show ?thesis
    by (auto simp: in_map_filter dest: extract_genre)
qed

lemma foldl_process_inv:
  "\<forall>m \<in> set (snd st). fst (snd m) \<noteq> ''General''
   \<Longrightarrow> \<forall>m \<in> set (snd (foldl process_element st es)). fst (snd m) \<noteq> ''General''"
proof (induction es arbitrary: st)
  case Nil
  then show ?case by simp
next
  case (Cons e es)
  obtain cur ms where st: "st = (cur, ms)" by (cases st)
  with Cons.prems have "\<forall>m \<in> set (snd (process_element st e)). fst (snd m) \<noteq> ''General''"
    using process_element_inv [of ms cur e] by simp
  from Cons.IH [OF this] show ?case by simp
qed

lemma foldl_process_general:
  "(\<forall>raw. Heading raw \<in> set es \<longrightarrow>
      (\<forall>k \<in> set (map fst genre_keywords). \<not> str_in k (clean_heading raw)))
   \<Longrightarrow> foldl process_element (''General'', ms) es = (''General'', ms)"
proof (induction es)
  case Nil
  then show ?case by simp
next
  case (Cons e es)
  have "process_element (''General'', ms) e = (''General'', ms)"
  proof (cases e)
    case (Heading raw)
    with Cons.prems have "\<forall>k \<in> set (map fst genre_keywords). \<not> str_in k (clean_heading raw)"
      by simp
    with Heading show ?thesis by (simp add: scan_keywords_none)
  next
    case (UL lis)
    then show ?thesis by simp
  qed
  with Cons show ?case by simp
qed

text \<open>
  C9. No record of the heading-state pass carries the genre General. A list met while
  \<open>current_genre\<close> is General adds no record, and as long as no heading has a keyword
  the genre stays General and no record is produced.
\<close>

theorem heading_state_genre_not_general:
  "(\<forall>m \<in> set (snd (process_elements all_elements)). fst (snd m) \<noteq> ''General'')
   \<and> process_element (''General'', movies) (UL lis) = (''General'', movies)
   \<and> ((\<forall>raw. Heading raw \<in> set all_elements \<longrightarrow>
          (\<forall>k \<in> set (map fst genre_keywords). \<not> str_in k (clean_heading raw)))
        \<longrightarrow> process_elements all_elements = (''General'', []))"
  using foldl_process_inv [of "(''General'', [])" all_elements]
    foldl_process_general [of all_elements "[]"]
  by (simp add: process_elements_def)

theorem heading_state_genre_not_general_witness:
  "process_elements
     [UL [''Ignored (1990)''], Heading ''Horror films[edit]'',
      UL [''Psycho (1960)'', ''junk''], Heading ''See also'', UL [''Alien (1979)'']]
     = (''Horror'',
        [(''Psycho'', ''Horror'', ''N/A'', ''1960''), (''Alien'', ''Horror'', ''N/A'', ''1979'')])
   \<and> fst (snd (''Psycho'', ''Horror'', ''N/A'', ''1960'')) \<noteq> ''General''
   \<and> fst (snd (''Alien'', ''Horror'', ''N/A'', ''1979'')) \<noteq> ''General''
   \<and> process_elements [UL [''Ignored (1990)''], Heading ''See also''] = (''General'', [])"
proof -
  let ?es = "[UL [''Ignored (1990)''], Heading ''Horror films[edit]'',
      UL [''Psycho (1960)'', ''junk''], Heading ''See also'', UL [''Alien (1979)'']]"
  have p: "process_elements ?es = (''Horror'',
        [(''Psycho'', ''Horror'', ''N/A'', ''1960''), (''Alien'', ''Horror'', ''N/A'', ''1979'')])"
    by code_simp
  have "\<forall>m \<in> set (snd (process_elements ?es)). fst (snd m) \<noteq> ''General''"
    using heading_state_genre_not_general [of ?es] by blast
  with p have g: "fst (snd (''Psycho'', ''Horror'', ''N/A'', ''1960'')) \<noteq> ''General''"
    "fst (snd (''Alien'', ''Horror'', ''N/A'', ''1979'')) \<noteq> ''General''"
    by simp_all
  have "list_all (\<lambda>k. \<not> str_in k (clean_heading ''See also'')) (map fst genre_keywords)"
    by code_simp
  then have "\<forall>raw. Heading raw \<in> set [UL [''Ignored (1990)''], Heading ''See also''] \<longrightarrow>
      (\<forall>k \<in> set (map fst genre_keywords). \<not> str_in k (clean_heading raw))"
    by (simp add: list_all_iff)
  then have "process_elements [UL [''Ignored (1990)''], Heading ''See also''] = (''General'', [])"
    using heading_state_genre_not_general [of "[UL [''Ignored (1990)''], Heading ''See also'']"]
    by blast
  with p g show ?thesis by blast
qed

section \<open>Properties of the record extractor\<close>

lemma lazy_prefix_Some:
  "lazy_prefix ok cont pre s = Some (p, v) \<Longrightarrow>
     \<exists>t r. s = t @ r \<and> p = pre @ t \<and> list_all ok t \<and> cont r = Some v
       \<and> (\<forall>t' r'. s = t' @ r' \<and> length t' < length t \<longrightarrow> cont r' = None)"
proof (induction ok cont pre s rule: lazy_prefix.induct)
  case (1 ok cont pre)
  then show ?case by (auto split: option.splits)
next
  case (2 ok cont pre c cs)
  show ?case
  proof (cases "cont (c # cs)")
    case (Some w)
    with "2.prems" have "p = pre" "w = v" by auto
    with Some show ?thesis by (intro exI [of _ "[]"] exI [of _ "c # cs"]) simp
  next
    case None
    with "2.prems" have ok: "ok c" and rec: "lazy_prefix ok cont (pre @ [c]) cs = Some (p, v)"
      by (auto split: if_splits)
    from "2.IH" [OF None ok rec] obtain t r where
      t: "cs = t @ r" "p = (pre @ [c]) @ t" "list_all ok t" "cont r = Some v"
      "\<forall>t' r'. cs = t' @ r' \<and> length t' < length t \<longrightarrow> cont r' = None" by blast
    have "\<forall>t' r'. c # cs = t' @ r' \<and> length t' < length (c # t) \<longrightarrow> cont r' = None"
    proof (intro allI impI)
      fix t' r' assume a: "c # cs = t' @ r' \<and> length t' < length (c # t)"
      show "cont r' = None"
      proof (cases t')
        case Nil
        with a None show ?thesis by simp
      next
        case (Cons x xs)
        with a have "cs = xs @ r'" "length xs < length t" by auto
        with t(5) show ?thesis by blast
      qed
    qed
    with t ok show ?thesis
      by (intro exI [of _ "c # t"] exI [of _ r]) simp
  qed
qed

lemma lazy_prefix_None:
  "lazy_prefix ok cont pre s = None \<Longrightarrow> s = t @ r \<Longrightarrow> list_all ok t \<Longrightarrow> cont r = None"
proof (induction ok cont pre s arbitrary: t rule: lazy_prefix.induct)
  case (1 ok cont pre)
  then show ?case by (auto split: option.splits)
next
  case (2 ok cont pre c cs)
  from "2.prems"(1) have n: "cont (c # cs) = None" by (auto split: option.splits)
  show ?case
  proof (cases t)
    case Nil
    with "2.prems" n show ?thesis by simp
  next
    case (Cons x xs)
    with "2.prems" have x: "x = c" "cs = xs @ r" "ok c" "list_all ok xs" by auto
    with "2.prems"(1) n have "lazy_prefix ok cont (pre @ [c]) cs = None" by simp
    from "2.IH" [OF n x(3) this x(2) x(4)] show ?thesis .
  qed
qed

lemma lazy_prefix_shortest:
  assumes "s = t @ r" "list_all ok t" "cont r = Some v"
    and "\<forall>t' r'. s = t' @ r' \<and> length t' < length t \<longrightarrow> cont r' = None"
  shows "lazy_prefix ok cont pre s = Some (pre @ t, v)"
proof (cases "lazy_prefix ok cont pre s")
  case None
  from lazy_prefix_None [OF None assms(1) assms(2)] assms(3) show ?thesis by simp
next
  case (Some pv)
  obtain p w where pv: "pv = (p, w)" by (cases pv)
  from lazy_prefix_Some [OF Some [unfolded pv]] obtain t2 r2 where
    t2: "s = t2 @ r2" "p = pre @ t2" "list_all ok t2" "cont r2 = Some w"
    "\<forall>t' r'. s = t' @ r' \<and> length t' < length t2 \<longrightarrow> cont r' = None" by blast
  have "\<not> length t < length t2" using t2(5) assms(1,3) by force
  moreover have "\<not> length t2 < length t" using assms(4) t2(1,4) by force
  ultimately have "length t = length t2" by simp
  with assms(1) t2(1) have "t = t2" "r = r2" by auto
  with t2 assms(3) Some pv show ?thesis by simp
qed

lemma dropWhile_run:
  "list_all P ws \<Longrightarrow> (case xs of [] \<Rightarrow> True | x # _ \<Rightarrow> \<not> P x) \<Longrightarrow> dropWhile P (ws @ xs) = xs"
  by (induction ws) (auto split: list.splits)

lemma run_split: "\<exists>ws. s = ws @ dropWhile P s \<and> list_all P ws"
  by (rule exI [of _ "takeWhile P s"]) (auto simp: list_all_iff dest: set_takeWhileD)

lemma four_digits_iff:
  "four_digits s = Some y \<longleftrightarrow> (\<exists>rest. s = y @ rest \<and> length y = 4 \<and> list_all isdigit y)"
proof
  assume "four_digits s = Some y"
  then show "\<exists>rest. s = y @ rest \<and> length y = 4 \<and> list_all isdigit y"
    by (auto simp: four_digits_def split: list.splits if_splits)
next
  assume "\<exists>rest. s = y @ rest \<and> length y = 4 \<and> list_all isdigit y"
  then obtain rest where r: "s = y @ rest" "length y = 4" "list_all isdigit y" by blast
  from r(2) obtain a b c d where "y = [a, b, c, d]"
    by (auto simp: length_Suc_conv numeral_eq_Suc)
  with r show "four_digits s = Some y" by (simp add: four_digits_def)
qed

lemma not_space_paren: "\<not> isspace CHR ''(''"
  by (simp add: isspace_def)

lemma paren_year_iff:
  "paren_year s = Some y \<longleftrightarrow>
     (\<exists>rest. s = ''('' @ y @ '')'' @ rest \<and> length y = 4 \<and> list_all isdigit y)"
proof
  assume a: "paren_year s = Some y"
  then obtain r where s: "s = CHR ''('' # r" and f: "four_digits r = Some y"
    and p: "prefix '')'' (drop 4 r)"
    by (auto simp: paren_year_def split: list.splits if_splits option.splits)
  from f obtain r1 where r1: "r = y @ r1" "length y = 4" "list_all isdigit y"
    using four_digits_iff by blast
  with p obtain rest where "r1 = '')'' @ rest" by (auto simp: prefix_def)
  with s r1 show "\<exists>rest. s = ''('' @ y @ '')'' @ rest \<and> length y = 4 \<and> list_all isdigit y"
    by auto
next
  assume "\<exists>rest. s = ''('' @ y @ '')'' @ rest \<and> length y = 4 \<and> list_all isdigit y"
  then obtain rest where r: "s = ''('' @ y @ '')'' @ rest" "length y = 4" "list_all isdigit y"
    by blast
  then have "four_digits (y @ '')'' @ rest) = Some y" using four_digits_iff by blast
  with r show "paren_year s = Some y" by (simp add: paren_year_def)
qed

lemma spaces_paren_year_iff:
  "spaces_paren_year s = Some y \<longleftrightarrow>
     (\<exists>ws rest. s = ws @ ''('' @ y @ '')'' @ rest \<and> ws \<noteq> [] \<and> list_all isspace ws
        \<and> length y = 4 \<and> list_all isdigit y)"
proof
  assume a: "spaces_paren_year s = Some y"
  then obtain c r where s: "s = c # r" "isspace c" and p: "paren_year (dropWhile isspace r) = Some y"
    by (auto simp: spaces_paren_year_def split: list.splits if_splits)
  from p obtain rest where rest: "dropWhile isspace r = ''('' @ y @ '')'' @ rest"
    "length y = 4" "list_all isdigit y" using paren_year_iff by blast
  obtain ws where ws: "r = ws @ dropWhile isspace r" "list_all isspace ws"
    using run_split by blast
  have "s = (c # ws) @ ''('' @ y @ '')'' @ rest"
    using s(1) ws(1) rest(1) by simp
  with s ws rest show "\<exists>ws rest. s = ws @ ''('' @ y @ '')'' @ rest \<and> ws \<noteq> [] \<and> list_all isspace ws
        \<and> length y = 4 \<and> list_all isdigit y"
    by (intro exI [of _ "c # ws"] exI [of _ rest]) simp
next
  assume "\<exists>ws rest. s = ws @ ''('' @ y @ '')'' @ rest \<and> ws \<noteq> [] \<and> list_all isspace ws
        \<and> length y = 4 \<and> list_all isdigit y"
  then obtain ws rest where w: "s = ws @ ''('' @ y @ '')'' @ rest" "ws \<noteq> []" "list_all isspace ws"
    "length y = 4" "list_all isdigit y" by blast
  from w(2) obtain c ws' where c: "ws = c # ws'" by (cases ws) auto
  with w(3) have sp: "isspace c" "list_all isspace ws'" by auto
  have "dropWhile isspace (ws' @ ''('' @ y @ '')'' @ rest) = ''('' @ y @ '')'' @ rest"
    using sp(2) by (intro dropWhile_run) (simp_all add: not_space_paren)
  moreover have "paren_year (''('' @ y @ '')'' @ rest) = Some y"
    using w paren_year_iff by blast
  ultimately show "spaces_paren_year s = Some y"
    using w(1) c sp(1) by (simp add: spaces_paren_year_def)
qed

lemma title_then_year_cont:
  "title_then_year text t y \<longleftrightarrow> (\<exists>r. text = t @ r \<and> list_all dot t \<and> spaces_paren_year r = Some y)"
  unfolding title_then_year_def spaces_paren_year_iff by blast

lemma match_title_paren_year_shortest:
  assumes "title_then_year text t y"
    and "\<forall>t' y'. title_then_year text t' y' \<longrightarrow> length t \<le> length t'"
  shows "match_title_paren_year text = Some (t, y)"
proof -
  from assms(1) obtain r where r: "text = t @ r" "list_all dot t" "spaces_paren_year r = Some y"
    using title_then_year_cont by blast
  have "\<forall>t' r'. text = t' @ r' \<and> length t' < length t \<longrightarrow> spaces_paren_year r' = None"
  proof (intro allI impI)
    fix t' r' assume a: "text = t' @ r' \<and> length t' < length t"
    from a have "take (length t') text = t'" by simp
    moreover from a have "take (length t') (t @ r) = take (length t') t" by simp
    ultimately have "t' = take (length t') t" using r(1) by simp
    then have "set t' \<subseteq> set t" using set_take_subset [of "length t'" t] by simp
    with r(2) have d: "list_all dot t'" by (auto simp: list_all_iff)
    show "spaces_paren_year r' = None"
    proof (rule ccontr)
      assume "spaces_paren_year r' \<noteq> None"
      then obtain y' where "spaces_paren_year r' = Some y'" by auto
      with a d have "title_then_year text t' y'" using title_then_year_cont by blast
      with assms(2) a show False by fastforce
    qed
  qed
  from lazy_prefix_shortest [OF r this, of "[]"] show ?thesis
    by (simp add: match_title_paren_year_def)
qed

lemma match_title_paren_year_None:
  assumes "\<nexists>t y. title_then_year text t y"
  shows "match_title_paren_year text = None"
proof (rule ccontr)
  assume "match_title_paren_year text \<noteq> None"
  then obtain p v where "lazy_prefix dot spaces_paren_year [] text = Some (p, v)"
    by (auto simp: match_title_paren_year_def)
  from lazy_prefix_Some [OF this] have "title_then_year text p v"
    using title_then_year_cont by auto
  with assms show False by blast
qed

lemma match_title_paren_year_Some:
  assumes "match_title_paren_year text = Some (t, y)"
  shows "title_then_year text t y \<and> (\<forall>t' y'. title_then_year text t' y' \<longrightarrow> length t \<le> length t')"
proof -
  from assms have "lazy_prefix dot spaces_paren_year [] text = Some (t, y)"
    by (simp add: match_title_paren_year_def)
  from lazy_prefix_Some [OF this] obtain r where
    r: "text = t @ r" "list_all dot t" "spaces_paren_year r = Some y"
      "\<forall>t' r'. text = t' @ r' \<and> length t' < length t \<longrightarrow> spaces_paren_year r' = None"
    by auto
  then have "title_then_year text t y" using title_then_year_cont by blast
  moreover have "length t \<le> length t'" if "title_then_year text t' y'" for t' y'
  proof (rule ccontr)
    assume "\<not> length t \<le> length t'"
    then have l: "length t' < length t" by simp
    from that obtain r' where "text = t' @ r'" "spaces_paren_year r' = Some y'"
      using title_then_year_cont by blast
    with r(4) l show False by force
  qed
  ultimately show ?thesis by blast
qed

lemma verb_cue_iff:
  "verb_cue s = Some () \<longleftrightarrow>
     (\<exists>ws cue rest. s = ws @ cue @ rest \<and> ws \<noteq> [] \<and> list_all isspace ws \<and> cue \<in> set verb_cues)"
proof
  assume "verb_cue s = Some ()"
  then obtain c r where s: "s = c # r" "isspace c"
    and ex: "list_ex (\<lambda>w. prefix w (dropWhile isspace r)) verb_cues"
    by (auto simp: verb_cue_def split: list.splits if_splits)
  from ex obtain cue rest where cue: "cue \<in> set verb_cues" "dropWhile isspace r = cue @ rest"
    by (auto simp: list_ex_iff prefix_def)
  obtain ws where ws: "r = ws @ dropWhile isspace r" "list_all isspace ws"
    using run_split by blast
  have "s = (c # ws) @ cue @ rest" using s(1) ws(1) cue(2) by simp
  with s ws cue show "\<exists>ws cue rest. s = ws @ cue @ rest \<and> ws \<noteq> [] \<and> list_all isspace ws
      \<and> cue \<in> set verb_cues"
    by (intro exI [of _ "c # ws"] exI [of _ cue] exI [of _ rest]) simp
next
  assume "\<exists>ws cue rest. s = ws @ cue @ rest \<and> ws \<noteq> [] \<and> list_all isspace ws
      \<and> cue \<in> set verb_cues"
  then obtain ws cue rest where w: "s = ws @ cue @ rest" "ws \<noteq> []" "list_all isspace ws"
    "cue \<in> set verb_cues" by blast
  from w(2) obtain c ws' where c: "ws = c # ws'" by (cases ws) auto
  with w(3) have sp: "isspace c" "list_all isspace ws'" by auto
  have "case cue @ rest of [] \<Rightarrow> True | x # _ \<Rightarrow> \<not> isspace x"
    using w(4) by (auto simp: verb_cues_def isspace_def)
  with sp(2) have "dropWhile isspace (ws' @ cue @ rest) = cue @ rest"
    by (rule dropWhile_run)
  then have "list_ex (\<lambda>w. prefix w (dropWhile isspace (ws' @ cue @ rest))) verb_cues"
    using w(4) by (auto simp: list_ex_iff intro!: bexI [of _ cue])
  with w(1) c sp(1) show "verb_cue s = Some ()"
    by (simp add: verb_cue_def)
qed

lemma narrative_clause_cont:
  "narrative_clause text c \<longleftrightarrow>
     (\<exists>r. text = c @ r \<and> c \<noteq> [] \<and> list_all not_sentence_end c \<and> verb_cue r = Some ())"
  unfolding narrative_clause_def verb_cue_iff by blast

lemma match_sentence_Some:
  assumes "match_sentence text = Some c"
  shows "narrative_clause text c \<and> (\<forall>c'. narrative_clause text c' \<longrightarrow> length c \<le> length c')"
proof -
  from assms obtain x xs where tx: "text = x # xs" and x: "not_sentence_end x"
    and l: "map_option fst (lazy_prefix not_sentence_end verb_cue [x] xs) = Some c"
    by (auto simp: match_sentence_def split: list.splits if_splits)
  from l obtain v where "lazy_prefix not_sentence_end verb_cue [x] xs = Some (c, v)"
    by auto
  from lazy_prefix_Some [OF this] obtain t r where
    t: "xs = t @ r" "c = [x] @ t" "list_all not_sentence_end t" "verb_cue r = Some v"
      "\<forall>t' r'. xs = t' @ r' \<and> length t' < length t \<longrightarrow> verb_cue r' = None"
    by blast
  have "narrative_clause text c"
    using tx x t narrative_clause_cont by auto
  moreover have "length c \<le> length c'" if "narrative_clause text c'" for c'
  proof (rule ccontr)
    assume "\<not> length c \<le> length c'"
    then have less: "length c' < length c" by simp
    from that obtain r' where r': "text = c' @ r'" "c' \<noteq> []" "verb_cue r' = Some ()"
      using narrative_clause_cont by blast
    from r'(1,2) tx obtain t' where t': "c' = x # t'" "xs = t' @ r'"
      by (cases c') auto
    with less t(2) have "length t' < length t" by simp
    with t(5) t'(2) r'(3) show False by force
  qed
  ultimately show ?thesis by blast
qed

lemma match_sentence_None:
  assumes "\<nexists>c. narrative_clause text c"
  shows "match_sentence text = None"
proof (rule ccontr)
  assume "match_sentence text \<noteq> None"
  then obtain c where "match_sentence text = Some c" by auto
  from match_sentence_Some [OF this] assms show False by blast
qed

lemma match_sentence_shortest:
  assumes "narrative_clause text c"
    and "\<forall>c'. narrative_clause text c' \<longrightarrow> length c \<le> length c'"
  shows "match_sentence text = Some c"
proof -
  from assms(1) obtain r where r: "text = c @ r" "c \<noteq> []" "list_all not_sentence_end c"
    "verb_cue r = Some ()" using narrative_clause_cont by blast
  from r(2) obtain x t where c: "c = x # t" by (cases c) auto
  with r have x: "not_sentence_end x" "list_all not_sentence_end t" by auto
  have min: "\<forall>t' r'. t @ r = t' @ r' \<and> length t' < length t \<longrightarrow> verb_cue r' = None"
  proof (intro allI impI)
    fix t' r' assume a: "t @ r = t' @ r' \<and> length t' < length t"
    from a have le: "length t' \<le> length t" and e: "t @ r = t' @ r'" by simp_all
    from le have "take (length t') (t @ r) = take (length t') t" by simp
    moreover have "take (length t') (t' @ r') = t'" by simp
    ultimately have "t' = take (length t') t" by (simp only: e)
    then have "set t' \<subseteq> set t" using set_take_subset [of "length t'" t] by simp
    with x(2) have d: "list_all not_sentence_end t'" by (auto simp: list_all_iff)
    show "verb_cue r' = None"
    proof (rule ccontr)
      assume "verb_cue r' \<noteq> None"
      then have "verb_cue r' = Some ()" by auto
      with a d x(1) r(1) c have "narrative_clause text (x # t')"
        using narrative_clause_cont by auto
      with assms(2) a c show False by fastforce
    qed
  qed
  have "lazy_prefix not_sentence_end verb_cue [x] (t @ r) = Some ([x] @ t, ())"
    by (rule lazy_prefix_shortest [OF refl x(2) r(4) min])
  with r(1) c x(1) show ?thesis by (simp add: match_sentence_def)
qed

lemma year_at_from_False: "year_at_from False text pre y = year_at text pre y"
  by (auto simp: year_at_from_def year_at_def year_shape_def)

lemma year_token_iff:
  "year_token s \<longleftrightarrow> (\<exists>y post. s = y @ post \<and> year_shape y post)"
proof
  assume a: "year_token s"
  then obtain a b c d rest where s: "s = a # b # c # d # rest"
    by (auto simp: year_token_def split: list.splits)
  with a have "year_shape [a, b, c, d] rest"
    by (auto simp: year_token_def year_shape_def isdigit_def split: list.splits)
  with s show "\<exists>y post. s = y @ post \<and> year_shape y post"
    by (intro exI [of _ "[a, b, c, d]"] exI [of _ rest]) simp
next
  assume "\<exists>y post. s = y @ post \<and> year_shape y post"
  then obtain y post where y: "s = y @ post" "year_shape y post" by blast
  then have "length y = 4" by (simp add: year_shape_def)
  then obtain a b c d where "y = [a, b, c, d]"
    by (auto simp: length_Suc_conv numeral_eq_Suc)
  with y show "year_token s"
    by (auto simp: year_token_def year_shape_def split: list.splits)
qed

lemma year_token_take:
  "s = y @ post \<Longrightarrow> year_shape y post \<Longrightarrow> take 4 s = y"
  by (simp add: year_shape_def)

lemma year_at_from_Nil:
  "year_at_from prev s [] y \<longleftrightarrow> \<not> prev \<and> year_token s \<and> y = take 4 s"
proof
  assume "year_at_from prev s [] y"
  then obtain post where p: "s = y @ post" "year_shape y post" "\<not> prev"
    by (auto simp: year_at_from_def)
  then have "year_token s" using year_token_iff by blast
  with p show "\<not> prev \<and> year_token s \<and> y = take 4 s"
    using year_token_take by auto
next
  assume a: "\<not> prev \<and> year_token s \<and> y = take 4 s"
  then obtain y' post where p: "s = y' @ post" "year_shape y' post"
    using year_token_iff by blast
  with a have "y = y'" using year_token_take by auto
  with a p show "year_at_from prev s [] y" by (auto simp: year_at_from_def)
qed

lemma year_at_from_Cons:
  "year_at_from prev (c # cs) (x # pre) y \<longleftrightarrow> x = c \<and> year_at_from (isword c) cs pre y"
  by (auto simp: year_at_from_def)

lemma year_from_Some:
  "year_from prev s = Some y \<Longrightarrow>
     \<exists>pre. year_at_from prev s pre y
       \<and> (\<forall>pre' y'. year_at_from prev s pre' y' \<longrightarrow> length pre \<le> length pre')"
proof (induction prev s rule: year_from.induct)
  case (1 prev)
  then show ?case by simp
next
  case (2 prev c cs)
  show ?case
  proof (cases "\<not> prev \<and> year_token (c # cs)")
    case True
    with "2.prems" have "y = take 4 (c # cs)" by auto
    with True have "year_at_from prev (c # cs) [] y" using year_at_from_Nil by blast
    then show ?thesis by (intro exI [of _ "[]"]) simp
  next
    case False
    with "2.prems" have "year_from (isword c) cs = Some y" by auto
    from "2.IH" [OF False this] obtain pre where
      pre: "year_at_from (isword c) cs pre y"
        "\<forall>pre' y'. year_at_from (isword c) cs pre' y' \<longrightarrow> length pre \<le> length pre'"
      by blast
    have "length (c # pre) \<le> length pre'" if "year_at_from prev (c # cs) pre' y'" for pre' y'
    proof (cases pre')
      case Nil
      with that False show ?thesis using year_at_from_Nil by blast
    next
      case (Cons x xs)
      with that have "year_at_from (isword c) cs xs y'" using year_at_from_Cons by blast
      with pre(2) Cons show ?thesis by auto
    qed
    with pre(1) show ?thesis
      by (intro exI [of _ "c # pre"]) (simp add: year_at_from_Cons)
  qed
qed

lemma year_from_None:
  "year_from prev s = None \<Longrightarrow> \<not> year_at_from prev s pre y"
proof (induction prev s arbitrary: pre rule: year_from.induct)
  case (1 prev)
  then show ?case by (auto simp: year_at_from_def year_shape_def)
next
  case (2 prev c cs)
  from "2.prems" have f: "\<not> (\<not> prev \<and> year_token (c # cs))" and n: "year_from (isword c) cs = None"
    by (auto split: if_splits)
  show ?case
  proof (cases pre)
    case Nil
    with f show ?thesis using year_at_from_Nil by blast
  next
    case (Cons x xs)
    with "2.IH" [OF f n, of xs] show ?thesis using year_at_from_Cons by blast
  qed
qed

lemma search_year_Some:
  "search_year text = Some y \<Longrightarrow>
     \<exists>pre. year_at text pre y \<and> (\<forall>pre' y'. year_at text pre' y' \<longrightarrow> length pre \<le> length pre')"
  using year_from_Some [of False "text" y] by (simp add: search_year_def year_at_from_False)

lemma search_year_None:
  "search_year text = None \<Longrightarrow> \<not> year_at text pre y"
  using year_from_None [of False "text" pre y] by (simp add: search_year_def year_at_from_False)

lemma match_title_paren_year_ex:
  assumes "title_then_year text t y"
  shows "\<exists>t0 y0. match_title_paren_year text = Some (t0, y0)"
proof (cases "match_title_paren_year text")
  case None
  from assms obtain r where r: "text = t @ r" "list_all dot t" "spaces_paren_year r = Some y"
    using title_then_year_cont by blast
  from None have "lazy_prefix dot spaces_paren_year [] text = None"
    by (simp add: match_title_paren_year_def)
  from lazy_prefix_None [OF this r(1) r(2)] r(3) show ?thesis by simp
next
  case (Some a)
  then show ?thesis by (cases a) simp
qed

lemma match_sentence_ex:
  assumes "narrative_clause text c"
  shows "\<exists>c0. match_sentence text = Some c0"
proof (cases "match_sentence text")
  case None
  from assms obtain r where r: "text = c @ r" "c \<noteq> []" "list_all not_sentence_end c"
    "verb_cue r = Some ()" using narrative_clause_cont by blast
  from r(2) obtain x t where c: "c = x # t" by (cases c) auto
  with r have x: "not_sentence_end x" "list_all not_sentence_end t" by auto
  from None r(1) c x(1) have "lazy_prefix not_sentence_end verb_cue [x] (t @ r) = None"
    by (simp add: match_sentence_def)
  from lazy_prefix_None [OF this refl x(2)] r(4) show ?thesis by simp
next
  case (Some a)
  then show ?thesis by simp
qed

lemma aside_set: "aside s = Some rest \<Longrightarrow> set rest \<subseteq> set s"
proof -
  assume "aside s = Some rest"
  then obtain r where r: "dropWhile isspace s = CHR ''('' # r" and cl: "close_paren r = Some rest"
    by (auto simp: aside_def split: list.splits if_splits)
  from cl obtain r' where r': "dropWhile (\<lambda>c. c \<noteq> CHR '')'') r = CHR '')'' # r'"
    and rest: "rest = dropWhile isspace r'"
    by (auto simp: close_paren_def split: list.splits dest: dropWhile_eq_Cons_conv [THEN iffD1])
  have "set rest \<subseteq> set r'" unfolding rest by (auto dest: set_dropWhileD)
  also have "set r' \<subseteq> set (dropWhile (\<lambda>c. c \<noteq> CHR '')'') r)" by (auto simp: r')
  also have "\<dots> \<subseteq> set r" by (auto dest: set_dropWhileD)
  also have "set r \<subseteq> set (dropWhile isspace s)" by (auto simp: r)
  also have "\<dots> \<subseteq> set s" by (auto dest: set_dropWhileD)
  finally show ?thesis .
qed

lemma sub_parens_set: "set (sub_parens s) \<subseteq> insert CHR '' '' (set s)"
proof (induction s rule: sub_parens.induct)
  case 1
  then show ?case by simp
next
  case (2 c cs)
  show ?case
  proof (cases "aside (c # cs)")
    case None
    with 2 show ?thesis by auto
  next
    case (Some rest)
    with 2 aside_set [OF Some] show ?thesis by auto
  qed
qed

lemma aside_open_None:
  assumes "aside (CHR ''('' # cs) = None"
  shows "CHR '')'' \<notin> set cs"
proof -
  from assms have "close_paren cs = None"
    by (simp add: aside_def isspace_def)
  then have "dropWhile (\<lambda>c. c \<noteq> CHR '')'') cs = []"
    by (auto simp: close_paren_def split: list.splits)
  then show ?thesis by (auto simp: dropWhile_eq_Nil_conv)
qed

lemma sub_parens_no_aside:
  "sub_parens s = a @ CHR ''('' # b \<Longrightarrow> CHR '')'' \<notin> set b"
proof (induction s arbitrary: a rule: sub_parens.induct)
  case 1
  then show ?case by simp
next
  case (2 c cs)
  show ?case
  proof (cases "aside (c # cs)")
    case (Some rest)
    with "2.prems" have e: "CHR '' '' # sub_parens rest = a @ CHR ''('' # b" by simp
    then obtain a' where "a = CHR '' '' # a'" by (cases a) auto
    with e have "sub_parens rest = a' @ CHR ''('' # b" by simp
    from "2.IH"(2) [OF Some this] show ?thesis .
  next
    case None
    with "2.prems" have e: "c # sub_parens cs = a @ CHR ''('' # b" by simp
    show ?thesis
    proof (cases a)
      case Nil
      with e have c: "c = CHR ''(''" and b: "b = sub_parens cs" by auto
      from None c have "CHR '')'' \<notin> set cs" using aside_open_None by blast
      with sub_parens_set [of cs] b show ?thesis by auto
    next
      case (Cons x a')
      with e have "sub_parens cs = a' @ CHR ''('' # b" by simp
      from "2.IH"(1) [OF None this] show ?thesis .
    qed
  qed
qed

lemma str_strip_infix: "\<exists>l r. s = l @ str_strip s @ r"
proof -
  obtain l where l: "s = l @ dropWhile isspace s"
    using run_split by blast
  obtain r' where r': "rev (dropWhile isspace s) = r' @ dropWhile isspace (rev (dropWhile isspace s))"
    using run_split by blast
  then have "dropWhile isspace s = str_strip s @ rev r'"
    by (metis rev_append rev_rev_ident str_strip_def)
  with l show ?thesis by metis
qed

lemma clause_title_no_aside:
  assumes "clause_title c = a @ CHR ''('' # b"
  shows "CHR '')'' \<notin> set b"
proof -
  obtain l r where "sub_parens (str_strip c) = l @ clause_title c @ r"
    unfolding clause_title_def using str_strip_infix by blast
  with assms have "sub_parens (str_strip c) = (l @ a) @ CHR ''('' # (b @ r)" by simp
  from sub_parens_no_aside [OF this] show ?thesis by simp
qed

lemma year_of_first:
  assumes "year_at text pre y"
    and "\<forall>pre' y'. year_at text pre' y' \<longrightarrow> length pre \<le> length pre'"
  shows "year_of text = y"
proof (cases "search_year text")
  case None
  with assms(1) show ?thesis using search_year_None by blast
next
  case (Some y0)
  from search_year_Some [OF Some] obtain pre0 where
    p0: "year_at text pre0 y0" "\<forall>pre' y'. year_at text pre' y' \<longrightarrow> length pre0 \<le> length pre'"
    by blast
  from assms p0 have len: "length pre = length pre0" by (meson le_antisym)
  from assms(1) obtain post where a: "text = pre @ y @ post" "length y = 4"
    by (auto simp: year_at_def)
  from p0(1) obtain post0 where b: "text = pre0 @ y0 @ post0" "length y0 = 4"
    by (auto simp: year_at_def)
  from a(1) b(1) len have "y @ post = y0 @ post0" by auto
  with a(2) b(2) have "y = y0" by auto
  with Some show ?thesis by (simp add: year_of_def)
qed

lemma year_of_none: "(\<nexists>pre y. year_at text pre y) \<Longrightarrow> year_of text = []"
  using search_year_Some [of "text"] by (cases "search_year text") (auto simp: year_of_def)

text \<open>
  C2 (as amended). The record extractor makes two attempts in order. (1) When the
  text begins with a title segment that holds no line break and is followed by at
  least one whitespace character and a parenthesized 4-digit year, the record is the
  trimmed title segment (the shortest such segment), the given genre, the unrated
  sentinel and the four digits. (2) Otherwise, when the text begins with a non-empty
  clause without sentence-ending punctuation that is followed by whitespace and then
  by the letters of one of the verb cues (as the beginning of what follows, not
  necessarily a whole word), the title is the (shortest such) clause with its
  parenthetical asides stripped; the record is returned only when that title is longer
  than 2 characters, and its year is the first standalone 4-digit token beginning with
  19 or 20 anywhere in the text, or the empty string. (3) Otherwise there is no match.
  The title of (2) holds no parenthesized aside. The text Pulp Fiction (1994) under
  the genre Crime gives the record (Pulp Fiction, Crime, unrated sentinel, 1994).
\<close>

theorem extract_movie_from_li_cases:
  "((\<exists>t y. title_then_year text t y) \<longrightarrow>
      (\<exists>t y. title_then_year text t y
         \<and> (\<forall>t' y'. title_then_year text t' y' \<longrightarrow> length t \<le> length t')
         \<and> extract_movie_from_li text genre = Some (str_strip t, genre, ''N/A'', y)))
   \<and> ((\<nexists>t y. title_then_year text t y) \<and> (\<exists>c. narrative_clause text c) \<longrightarrow>
      (\<exists>c. narrative_clause text c
         \<and> (\<forall>c'. narrative_clause text c' \<longrightarrow> length c \<le> length c')
         \<and> extract_movie_from_li text genre =
             (if length (clause_title c) > 2
              then Some (clause_title c, genre, ''N/A'', year_of text) else None)))
   \<and> ((\<nexists>t y. title_then_year text t y) \<and> (\<nexists>c. narrative_clause text c) \<longrightarrow>
        extract_movie_from_li text genre = None)
   \<and> (\<forall>c a b. clause_title c = a @ ''('' @ b \<longrightarrow> CHR '')'' \<notin> set b)
   \<and> (\<forall>pre y. year_at text pre y
         \<and> (\<forall>pre' y'. year_at text pre' y' \<longrightarrow> length pre \<le> length pre')
         \<longrightarrow> year_of text = y)
   \<and> ((\<nexists>pre y. year_at text pre y) \<longrightarrow> year_of text = [])
   \<and> extract_movie_from_li ''Pulp Fiction (1994)'' ''Crime''
       = Some (''Pulp Fiction'', ''Crime'', ''N/A'', ''1994'')"
proof -
  have c1: "(\<exists>t y. title_then_year text t y) \<longrightarrow>
      (\<exists>t y. title_then_year text t y
         \<and> (\<forall>t' y'. title_then_year text t' y' \<longrightarrow> length t \<le> length t')
         \<and> extract_movie_from_li text genre = Some (str_strip t, genre, ''N/A'', y))"
  proof
    assume "\<exists>t y. title_then_year text t y"
    then obtain t0 y0 where m: "match_title_paren_year text = Some (t0, y0)"
      using match_title_paren_year_ex by blast
    from match_title_paren_year_Some [OF m] m
    show "\<exists>t y. title_then_year text t y
         \<and> (\<forall>t' y'. title_then_year text t' y' \<longrightarrow> length t \<le> length t')
         \<and> extract_movie_from_li text genre = Some (str_strip t, genre, ''N/A'', y)"
      by (intro exI [of _ t0] exI [of _ y0]) (simp add: extract_movie_from_li_def)
  qed
  have c2: "(\<nexists>t y. title_then_year text t y) \<and> (\<exists>c. narrative_clause text c) \<longrightarrow>
      (\<exists>c. narrative_clause text c
         \<and> (\<forall>c'. narrative_clause text c' \<longrightarrow> length c \<le> length c')
         \<and> extract_movie_from_li text genre =
             (if length (clause_title c) > 2
              then Some (clause_title c, genre, ''N/A'', year_of text) else None))"
  proof
    assume a: "(\<nexists>t y. title_then_year text t y) \<and> (\<exists>c. narrative_clause text c)"
    then have n: "match_title_paren_year text = None"
      using match_title_paren_year_None by blast
    from a obtain c0 where m: "match_sentence text = Some c0"
      using match_sentence_ex by blast
    from match_sentence_Some [OF m] n m
    show "\<exists>c. narrative_clause text c
         \<and> (\<forall>c'. narrative_clause text c' \<longrightarrow> length c \<le> length c')
         \<and> extract_movie_from_li text genre =
             (if length (clause_title c) > 2
              then Some (clause_title c, genre, ''N/A'', year_of text) else None)"
      by (intro exI [of _ c0])
        (simp add: extract_movie_from_li_def clause_title_def year_of_def Let_def)
  qed
  have c3: "(\<nexists>t y. title_then_year text t y) \<and> (\<nexists>c. narrative_clause text c) \<longrightarrow>
        extract_movie_from_li text genre = None"
    using match_title_paren_year_None [of "text"] match_sentence_None [of "text"]
    by (simp add: extract_movie_from_li_def)
  have c4: "\<forall>c a b. clause_title c = a @ ''('' @ b \<longrightarrow> CHR '')'' \<notin> set b"
    using clause_title_no_aside by simp
  have c5: "\<forall>pre y. year_at text pre y
         \<and> (\<forall>pre' y'. year_at text pre' y' \<longrightarrow> length pre \<le> length pre')
         \<longrightarrow> year_of text = y"
    using year_of_first by blast
  have c6: "(\<nexists>pre y. year_at text pre y) \<longrightarrow> year_of text = []"
    using year_of_none by blast
  have c7: "extract_movie_from_li ''Pulp Fiction (1994)'' ''Crime''
       = Some (''Pulp Fiction'', ''Crime'', ''N/A'', ''1994'')"
    by code_simp
  from c1 c2 c3 c4 c5 c6 c7 show ?thesis by (intro conjI)
qed

theorem extract_movie_from_li_cases_witness:
  "(\<exists>t y. title_then_year ''Pulp Fiction (1994)'' t y \<and> str_strip t = ''Pulp Fiction''
      \<and> y = ''1994'')
   \<and> extract_movie_from_li ''Pulp Fiction (1994)'' ''Crime''
       = Some (''Pulp Fiction'', ''Crime'', ''N/A'', ''1994'')
   \<and> (\<nexists>t y. title_then_year ''Casablanca (Warner) was voted best in 1942'' t y)
   \<and> (\<exists>c. narrative_clause ''Casablanca (Warner) was voted best in 1942'' c
         \<and> clause_title c = ''Casablanca'')
   \<and> year_of ''Casablanca (Warner) was voted best in 1942'' = ''1942''
   \<and> extract_movie_from_li ''Casablanca (Warner) was voted best in 1942'' ''Crime''
       = Some (''Casablanca'', ''Crime'', ''N/A'', ''1942'')
   \<and> (\<nexists>t y. title_then_year ''junk'' t y) \<and> (\<nexists>c. narrative_clause ''junk'' c)
   \<and> extract_movie_from_li ''junk'' ''Crime'' = None"
proof -
  let ?t1 = "''Pulp Fiction (1994)''"
  let ?t2 = "''Casablanca (Warner) was voted best in 1942''"
  have m1: "match_title_paren_year ?t1 = Some (''Pulp Fiction'', ''1994'')" by code_simp
  have e1: "extract_movie_from_li ?t1 ''Crime'' = Some (''Pulp Fiction'', ''Crime'', ''N/A'', ''1994'')"
    by code_simp
  have h1: "\<exists>t y. title_then_year ?t1 t y"
    using match_title_paren_year_Some [OF m1] by blast
  with extract_movie_from_li_cases [of ?t1 "''Crime''"] e1
  have w1: "\<exists>t y. title_then_year ?t1 t y \<and> str_strip t = ''Pulp Fiction'' \<and> y = ''1994''"
    by auto
  have m2: "match_title_paren_year ?t2 = None" by code_simp
  have s2: "match_sentence ?t2 = Some ''Casablanca (Warner)''" by code_simp
  have e2: "extract_movie_from_li ?t2 ''Crime'' = Some (''Casablanca'', ''Crime'', ''N/A'', ''1942'')"
    by code_simp
  have n2: "\<nexists>t y. title_then_year ?t2 t y"
    using match_title_paren_year_ex [of ?t2] m2 by auto
  have h2: "\<exists>c. narrative_clause ?t2 c"
    using match_sentence_Some [OF s2] by blast
  from extract_movie_from_li_cases [of ?t2 "''Crime''"] n2 h2
  obtain c where c: "narrative_clause ?t2 c"
    "extract_movie_from_li ?t2 ''Crime'' =
       (if length (clause_title c) > 2
        then Some (clause_title c, ''Crime'', ''N/A'', year_of ?t2) else None)"
    by blast
  with e2 have w2: "clause_title c = ''Casablanca''" "year_of ?t2 = ''1942''"
    by (auto split: if_splits)
  have m3: "match_title_paren_year ''junk'' = None" "match_sentence ''junk'' = None"
    by code_simp+
  have n3: "\<nexists>t y. title_then_year ''junk'' t y" "\<nexists>c. narrative_clause ''junk'' c"
    using match_title_paren_year_ex [of "''junk''"] match_sentence_ex [of "''junk''"] m3
    by auto
  with extract_movie_from_li_cases [of "''junk''" "''Crime''"]
  have e3: "extract_movie_from_li ''junk'' ''Crime'' = None" by blast
  from w1 e1 n2 c(1) w2 e2 n3 e3 show ?thesis by blast
qed

text \<open>
  C2 as stated fails: a title segment immediately followed by the parenthesized year,
  with no whitespace between them, gives no record; and a cue is taken where it only
  begins a longer word, as the is of isle.
\<close>

theorem extract_movie_from_li_stated_counterexample:
  "stated_title_year ''Pulp Fiction(1994)'' ''Pulp Fiction'' ''1994''
   \<and> extract_movie_from_li ''Pulp Fiction(1994)'' ''Crime'' = None
   \<and> extract_movie_from_li ''The isle of dogs'' ''Crime'' = Some (''The'', ''Crime'', ''N/A'', [])"
proof -
  have "list_all isdigit ''1994''" by code_simp
  then have "stated_title_year ''Pulp Fiction(1994)'' ''Pulp Fiction'' ''1994''"
    by (simp add: stated_title_year_def)
  moreover have "extract_movie_from_li ''Pulp Fiction(1994)'' ''Crime'' = None" by code_simp
  moreover have "extract_movie_from_li ''The isle of dogs'' ''Crime''
      = Some (''The'', ''Crime'', ''N/A'', [])" by code_simp
  ultimately show ?thesis by (intro conjI)
qed

section \<open>Properties of the fallback extractor\<close>

lemma try_patterns_step:
  "try_patterns (p # ps) text =
     (case candidate p text of Some m \<Rightarrow> Some m | None \<Rightarrow> try_patterns ps text)"
  by (auto simp: candidate_def rejected_def Let_def split: option.splits)

lemma try_patterns_first:
  "i < length ps \<Longrightarrow> candidate (ps ! i) text = Some m
   \<Longrightarrow> (\<forall>j < i. candidate (ps ! j) text = None)
   \<Longrightarrow> try_patterns ps text = Some m"
proof (induction ps arbitrary: i)
  case Nil
  then show ?case by simp
next
  case (Cons p ps)
  show ?case
  proof (cases i)
    case 0
    with Cons.prems show ?thesis by (simp add: try_patterns_step del: try_patterns.simps(2))
  next
    case (Suc n)
    with Cons.prems have p: "candidate p text = None" by fastforce
    from Suc Cons.prems have "n < length ps" "candidate (ps ! n) text = Some m"
      "\<forall>j < n. candidate (ps ! j) text = None" by auto
    from Cons.IH [OF this] p show ?thesis by (simp add: try_patterns_step del: try_patterns.simps(2))
  qed
qed

lemma try_patterns_none:
  "(\<forall>p \<in> set ps. candidate p text = None) \<Longrightarrow> try_patterns ps text = None"
  by (induction ps) (simp_all add: try_patterns_step del: try_patterns.simps(2))

lemma try_patterns_Some:
  "try_patterns ps text = Some m \<Longrightarrow>
     \<exists>i < length ps. candidate (ps ! i) text = Some m \<and> (\<forall>j < i. candidate (ps ! j) text = None)"
proof (induction ps)
  case Nil
  then show ?case by simp
next
  case (Cons p ps)
  show ?case
  proof (cases "candidate p text")
    case (Some m')
    with Cons.prems have "m' = m" by (simp add: try_patterns_step del: try_patterns.simps(2))
    with Some show ?thesis by (intro exI [of _ 0]) simp
  next
    case None
    with Cons.prems have "try_patterns ps text = Some m" by (simp add: try_patterns_step del: try_patterns.simps(2))
    from Cons.IH [OF this] obtain i where i: "i < length ps" "candidate (ps ! i) text = Some m"
      "\<forall>j < i. candidate (ps ! j) text = None" by blast
    have "\<forall>j < Suc i. candidate ((p # ps) ! j) text = None"
    proof (intro allI impI)
      fix j assume "j < Suc i"
      with None i(3) show "candidate ((p # ps) ! j) text = None" by (cases j) auto
    qed
    with i show ?thesis by (intro exI [of _ "Suc i"]) simp
  qed
qed

lemma dash_year_iff:
  "dash_year s = Some y \<longleftrightarrow>
     (\<exists>ws1 ws2 rest. s = ws1 @ ''-'' @ ws2 @ y @ rest \<and> list_all isspace ws1
        \<and> list_all isspace ws2 \<and> length y = 4 \<and> list_all isdigit y)"
proof
  assume "dash_year s = Some y"
  then obtain r where d: "dropWhile isspace s = CHR ''-'' # r"
    and f: "four_digits (dropWhile isspace r) = Some y"
    by (auto simp: dash_year_def split: list.splits if_splits)
  from f obtain rest where rest: "dropWhile isspace r = y @ rest" "length y = 4"
    "list_all isdigit y" using four_digits_iff by blast
  obtain ws1 where ws1: "s = ws1 @ dropWhile isspace s" "list_all isspace ws1"
    using run_split by blast
  obtain ws2 where ws2: "r = ws2 @ dropWhile isspace r" "list_all isspace ws2"
    using run_split by blast
  have "s = ws1 @ ''-'' @ ws2 @ y @ rest"
    using ws1(1) d ws2(1) rest(1) by simp
  with ws1 ws2 rest show "\<exists>ws1 ws2 rest. s = ws1 @ ''-'' @ ws2 @ y @ rest \<and> list_all isspace ws1
        \<and> list_all isspace ws2 \<and> length y = 4 \<and> list_all isdigit y"
    by blast
next
  assume "\<exists>ws1 ws2 rest. s = ws1 @ ''-'' @ ws2 @ y @ rest \<and> list_all isspace ws1
        \<and> list_all isspace ws2 \<and> length y = 4 \<and> list_all isdigit y"
  then obtain ws1 ws2 rest where w: "s = ws1 @ ''-'' @ ws2 @ y @ rest" "list_all isspace ws1"
    "list_all isspace ws2" "length y = 4" "list_all isdigit y" by blast
  from w(4) obtain a b c d where y: "y = [a, b, c, d]"
    by (auto simp: length_Suc_conv numeral_eq_Suc)
  with w(5) have "\<not> isspace a" by (auto simp: isdigit_def isspace_def Let_def)
  with y w(3) have 2: "dropWhile isspace (ws2 @ y @ rest) = y @ rest"
    by (intro dropWhile_run) simp_all
  have 1: "dropWhile isspace (ws1 @ ''-'' @ ws2 @ y @ rest) = ''-'' @ ws2 @ y @ rest"
    using w(2) by (intro dropWhile_run) (simp_all add: isspace_def)
  have "four_digits (y @ rest) = Some y" using w four_digits_iff by blast
  with 1 2 w(1) show "dash_year s = Some y" by (simp add: dash_year_def)
qed

lemma comma_year_iff:
  "comma_year s = Some y \<longleftrightarrow>
     (\<exists>ws rest. s = '','' @ ws @ y @ rest \<and> list_all isspace ws
        \<and> length y = 4 \<and> list_all isdigit y)"
proof
  assume "comma_year s = Some y"
  then obtain r where d: "s = CHR '','' # r"
    and f: "four_digits (dropWhile isspace r) = Some y"
    by (auto simp: comma_year_def split: list.splits if_splits)
  from f obtain rest where rest: "dropWhile isspace r = y @ rest" "length y = 4"
    "list_all isdigit y" using four_digits_iff by blast
  obtain ws where ws: "r = ws @ dropWhile isspace r" "list_all isspace ws"
    using run_split by blast
  have "s = '','' @ ws @ y @ rest" using d ws(1) rest(1) by simp
  with ws rest show "\<exists>ws rest. s = '','' @ ws @ y @ rest \<and> list_all isspace ws
        \<and> length y = 4 \<and> list_all isdigit y" by blast
next
  assume "\<exists>ws rest. s = '','' @ ws @ y @ rest \<and> list_all isspace ws
        \<and> length y = 4 \<and> list_all isdigit y"
  then obtain ws rest where w: "s = '','' @ ws @ y @ rest" "list_all isspace ws"
    "length y = 4" "list_all isdigit y" by blast
  from w(3) obtain a b c d where y: "y = [a, b, c, d]"
    by (auto simp: length_Suc_conv numeral_eq_Suc)
  with w(4) have "\<not> isspace a" by (auto simp: isdigit_def isspace_def Let_def)
  with y w(2) have 2: "dropWhile isspace (ws @ y @ rest) = y @ rest"
    by (intro dropWhile_run) simp_all
  have "four_digits (y @ rest) = Some y" using w four_digits_iff by blast
  with 2 w(1) show "comma_year s = Some y" by (simp add: comma_year_def)
qed

lemma lazy_prefix_iff:
  "lazy_prefix dot cont [] text = Some (t, y) \<longleftrightarrow>
     shortest (\<lambda>t y. \<exists>r. text = t @ r \<and> list_all dot t \<and> cont r = Some y) t y"
proof
  assume a: "lazy_prefix dot cont [] text = Some (t, y)"
  from lazy_prefix_Some [OF a] obtain r where
    r: "text = t @ r" "list_all dot t" "cont r = Some y"
      "\<forall>t' r'. text = t' @ r' \<and> length t' < length t \<longrightarrow> cont r' = None"
    by auto
  have "length t \<le> length t'" if "text = t' @ r'" "cont r' = Some y'" for t' r' y'
  proof (rule ccontr)
    assume "\<not> length t \<le> length t'"
    with r(4) that show False by force
  qed
  with r show "shortest (\<lambda>t y. \<exists>r. text = t @ r \<and> list_all dot t \<and> cont r = Some y) t y"
    unfolding shortest_def by blast
next
  assume "shortest (\<lambda>t y. \<exists>r. text = t @ r \<and> list_all dot t \<and> cont r = Some y) t y"
  then obtain r where r: "text = t @ r" "list_all dot t" "cont r = Some y"
    and min: "\<forall>t' y' r'. text = t' @ r' \<and> list_all dot t' \<and> cont r' = Some y'
       \<longrightarrow> length t \<le> length t'"
    unfolding shortest_def by blast
  have "\<forall>t' r'. text = t' @ r' \<and> length t' < length t \<longrightarrow> cont r' = None"
  proof (intro allI impI)
    fix t' r' assume a: "text = t' @ r' \<and> length t' < length t"
    with r(1) have le: "length t' \<le> length t" and e: "t @ r = t' @ r'" by simp_all
    from le have "take (length t') (t @ r) = take (length t') t" by simp
    moreover have "take (length t') (t' @ r') = t'" by simp
    ultimately have "t' = take (length t') t" by (simp only: e)
    then have "set t' \<subseteq> set t" using set_take_subset [of "length t'" t] by simp
    with r(2) have d: "list_all dot t'" by (auto simp: list_all_iff)
    show "cont r' = None"
    proof (rule ccontr)
      assume "cont r' \<noteq> None"
      then obtain y' where "cont r' = Some y'" by auto
      with a d min show False by fastforce
    qed
  qed
  from lazy_prefix_shortest [OF r this, of "[]"] show "lazy_prefix dot cont [] text = Some (t, y)"
    by simp
qed

lemma match_title_paren_year_iff:
  "match_title_paren_year text = Some (t, y) \<longleftrightarrow> shortest (title_then_year text) t y"
  unfolding match_title_paren_year_def lazy_prefix_iff title_then_year_cont [abs_def] ..

lemma title_dash_year_cont:
  "title_dash_year text t y \<longleftrightarrow> (\<exists>r. text = t @ r \<and> list_all dot t \<and> dash_year r = Some y)"
  unfolding title_dash_year_def dash_year_iff by auto

lemma title_comma_year_cont:
  "title_comma_year text t y \<longleftrightarrow> (\<exists>r. text = t @ r \<and> list_all dot t \<and> comma_year r = Some y)"
  unfolding title_comma_year_def comma_year_iff by auto

lemma match_title_dash_year_iff:
  "match_title_dash_year text = Some (t, y) \<longleftrightarrow> shortest (title_dash_year text) t y"
  unfolding match_title_dash_year_def lazy_prefix_iff title_dash_year_cont [abs_def] ..

lemma match_title_comma_year_iff:
  "match_title_comma_year text = Some (t, y) \<longleftrightarrow> shortest (title_comma_year text) t y"
  unfolding match_title_comma_year_def lazy_prefix_iff title_comma_year_cont [abs_def] ..

lemma map_filter_Nil: "List.map_filter f xs = [] \<longleftrightarrow> (\<forall>x \<in> set xs. f x = None)"
  by (induction xs) (auto split: option.splits)

lemma general_movies_Nil:
  "general_movies uls = [] \<longleftrightarrow> (\<forall>ul \<in> set uls. \<forall>li \<in> set ul. try_patterns patterns li = None)"
  by (simp add: general_movies_def map_filter_Nil)

lemma drop_duplicates_Nil: "drop_duplicates df = [] \<longleftrightarrow> df = []"
  by (cases df) (simp_all add: drop_duplicates_def)

text \<open>
  C7 (as amended). For an item of the fallback pass the patterns Title (Year),
  Title - Year and Title, Year are tried in that order. A candidate whose title is
  shorter than 3 characters or contains a stoplist word in lowercase is discarded and
  the next pattern is tried on the same item; the first pattern whose candidate is
  not discarded gives the record of the item, and the item gives no record when no
  pattern has a surviving candidate. When the whole fallback pass yields no record
  the extraction fails; a successful fallback is never empty; and the fallback is
  what the extraction returns when the heading-state pass yields no record.
\<close>

theorem fallback_patterns_in_order:
  "patterns = [match_title_paren_year, match_title_dash_year, match_title_comma_year]
   \<and> (\<forall>t y. match_title_paren_year text = Some (t, y) \<longleftrightarrow> shortest (title_then_year text) t y)
   \<and> (\<forall>t y. match_title_dash_year text = Some (t, y) \<longleftrightarrow> shortest (title_dash_year text) t y)
   \<and> (\<forall>t y. match_title_comma_year text = Some (t, y) \<longleftrightarrow> shortest (title_comma_year text) t y)
   \<and> (\<forall>i m. i < length patterns \<and> candidate (patterns ! i) text = Some m
          \<and> (\<forall>j < i. candidate (patterns ! j) text = None)
        \<longrightarrow> try_patterns patterns text = Some m)
   \<and> ((\<forall>p \<in> set patterns. candidate p text = None) \<longrightarrow> try_patterns patterns text = None)
   \<and> (scrape_general_movies uls = None \<longleftrightarrow>
        (\<forall>ul \<in> set uls. \<forall>li \<in> set ul. try_patterns patterns li = None))
   \<and> (\<forall>df. scrape_general_movies uls = Some df \<longrightarrow> df \<noteq> [])
   \<and> (snd (process_elements all_elements) = [] \<longrightarrow>
        scrape_wikipedia_best_movies all_elements = scrape_general_movies (lists_of all_elements))"
proof -
  have 1: "patterns = [match_title_paren_year, match_title_dash_year, match_title_comma_year]"
    by (simp add: patterns_def)
  have 5: "\<forall>i m. i < length patterns \<and> candidate (patterns ! i) text = Some m
          \<and> (\<forall>j < i. candidate (patterns ! j) text = None)
        \<longrightarrow> try_patterns patterns text = Some m"
    using try_patterns_first by blast
  have 6: "(\<forall>p \<in> set patterns. candidate p text = None) \<longrightarrow> try_patterns patterns text = None"
    using try_patterns_none by blast
  have 7: "scrape_general_movies uls = None \<longleftrightarrow>
        (\<forall>ul \<in> set uls. \<forall>li \<in> set ul. try_patterns patterns li = None)"
  proof -
    have "scrape_general_movies uls = None \<longleftrightarrow> general_movies uls = []"
      by (simp add: scrape_general_movies_def Let_def)
    then show ?thesis by (simp only: general_movies_Nil)
  qed
  have 8: "\<forall>df. scrape_general_movies uls = Some df \<longrightarrow> df \<noteq> []"
    by (auto simp: scrape_general_movies_def Let_def drop_duplicates_Nil DataFrame_def
        split: if_splits)
  have 9: "snd (process_elements all_elements) = [] \<longrightarrow>
        scrape_wikipedia_best_movies all_elements = scrape_general_movies (lists_of all_elements)"
    by (simp add: scrape_wikipedia_best_movies_def Let_def)
  have 2: "\<forall>t y. match_title_paren_year text = Some (t, y)
      \<longleftrightarrow> shortest (title_then_year text) t y"
    using match_title_paren_year_iff by blast
  have 3: "\<forall>t y. match_title_dash_year text = Some (t, y)
      \<longleftrightarrow> shortest (title_dash_year text) t y"
    using match_title_dash_year_iff by blast
  have 4: "\<forall>t y. match_title_comma_year text = Some (t, y)
      \<longleftrightarrow> shortest (title_comma_year text) t y"
    using match_title_comma_year_iff by blast
  from 1 2 3 4 5 6 7 8 9 show ?thesis by (intro conjI)
qed

theorem fallback_patterns_in_order_witness:
  "candidate match_title_paren_year ''ab (1994) - 1995'' = None
   \<and> candidate match_title_dash_year ''ab (1994) - 1995''
       = Some (''ab (1994)'', ''General'', ''N/A'', ''1995'')
   \<and> try_patterns patterns ''ab (1994) - 1995''
       = Some (''ab (1994)'', ''General'', ''N/A'', ''1995'')
   \<and> try_patterns patterns ''See also list (2000)'' = None
   \<and> scrape_general_movies [[''See also list (2000)'']] = None
   \<and> scrape_general_movies [[''ab (1994) - 1995'']] \<noteq> Some []"
proof -
  let ?t = "''ab (1994) - 1995''"
  let ?m = "(''ab (1994)'', ''General'', ''N/A'', ''1995'')"
  let ?s = "''See also list (2000)''"
  note T = fallback_patterns_in_order [of ?t "[[?t]]"]
  note S = fallback_patterns_in_order [of ?s "[[?s]]"]
  have c0: "candidate match_title_paren_year ?t = None" by code_simp
  have c1: "candidate match_title_dash_year ?t = Some ?m" by code_simp
  have p: "patterns ! 0 = match_title_paren_year" "patterns ! 1 = match_title_dash_year"
    "(1::nat) < length patterns" by (simp_all add: patterns_def)
  have j: "\<forall>j < (1::nat). candidate (patterns ! j) ?t = None"
    using c0 p(1) by simp
  have "\<forall>i m. i < length patterns \<and> candidate (patterns ! i) ?t = Some m
          \<and> (\<forall>j < i. candidate (patterns ! j) ?t = None)
        \<longrightarrow> try_patterns patterns ?t = Some m"
    by (rule T [THEN conjunct2, THEN conjunct2, THEN conjunct2, THEN conjunct2, THEN conjunct1])
  then have "(1::nat) < length patterns \<and> candidate (patterns ! 1) ?t = Some ?m
          \<and> (\<forall>j < (1::nat). candidate (patterns ! j) ?t = None)
        \<longrightarrow> try_patterns patterns ?t = Some ?m"
    by blast
  with j c1 p(2,3) have t1: "try_patterns patterns ?t = Some ?m"
    by (simp only: simp_thms)
  have "list_all (\<lambda>p. candidate p ?s = None) patterns" by code_simp
  then have n: "\<forall>p \<in> set patterns. candidate p ?s = None" by (simp add: list_all_iff)
  have "(\<forall>p \<in> set patterns. candidate p ?s = None) \<longrightarrow> try_patterns patterns ?s = None"
    by (rule S [THEN conjunct2, THEN conjunct2, THEN conjunct2, THEN conjunct2, THEN conjunct2,
          THEN conjunct1])
  with n have t2: "try_patterns patterns ?s = None" by blast
  have "scrape_general_movies [[?s]] = None \<longleftrightarrow>
        (\<forall>ul \<in> set [[?s]]. \<forall>li \<in> set ul. try_patterns patterns li = None)"
    by (rule S [THEN conjunct2, THEN conjunct2, THEN conjunct2, THEN conjunct2, THEN conjunct2,
          THEN conjunct2, THEN conjunct1])
  with t2 have s1: "scrape_general_movies [[?s]] = None" by simp
  have "\<forall>df. scrape_general_movies [[?t]] = Some df \<longrightarrow> df \<noteq> []"
    by (rule T [THEN conjunct2, THEN conjunct2, THEN conjunct2, THEN conjunct2, THEN conjunct2,
          THEN conjunct2, THEN conjunct2, THEN conjunct1])
  then have s2: "scrape_general_movies [[?t]] \<noteq> Some []" by blast
  from c0 c1 t1 t2 s1 s2 show ?thesis by (intro conjI)
qed

text \<open>
  C7 as stated fails: in this item the first match, of Title (Year), has the title ab
  of 2 characters and is discarded, yet the item produces a record, through the
  pattern Title - Year.
\<close>

theorem fallback_rejected_candidate_counterexample:
  "match_title_paren_year ''ab (1994) - 1995'' = Some (''ab'', ''1994'')
   \<and> length (str_strip ''ab'') < 3
   \<and> try_patterns patterns ''ab (1994) - 1995''
       = Some (''ab (1994)'', ''General'', ''N/A'', ''1995'')
   \<and> scrape_general_movies [[''ab (1994) - 1995'']]
       = Some [\<lparr>Title = Some ''ab (1994)'', Genre = Some ''General'', Rating = Some ''N/A'',
               Year = Some ''1995''\<rparr>]"
  by code_simp

section \<open>Properties of the recommendation sampler\<close>

lemma permutation_length:
  assumes "distinct p" "set p = {0..<n}"
  shows "length p = n"
  using assms distinct_card [of p] by simp

lemma sample_ok:
  assumes perm: "distinct (permutation (length df))" "set (permutation (length df)) = {0..<length df}"
    and n: "0 \<le> n" "nat n \<le> length df"
  shows "\<exists>idx. sample permutation n df = Inr (map (\<lambda>i. df ! i) idx)
     \<and> length idx = nat n \<and> distinct idx \<and> set idx \<subseteq> {0..<length df}"
proof -
  let ?idx = "take (nat n) (permutation (length df))"
  have "length (permutation (length df)) = length df"
    using perm by (rule permutation_length)
  with n have "length ?idx = nat n" by simp
  moreover have "distinct ?idx" using perm(1) by simp
  moreover have "set ?idx \<subseteq> {0..<length df}"
    using set_take_subset [of "nat n" "permutation (length df)"] perm(2) by simp
  moreover have "sample permutation n df = Inr (map (\<lambda>i. df ! i) ?idx)"
    using n by (simp add: sample_def)
  ultimately show ?thesis by blast
qed

lemma distinct_rows: "distinct (map dup_key df) \<Longrightarrow> distinct df"
  by (rule distinct_map [THEN iffD1, THEN conjunct1])

text \<open>
  C8. For a non-empty filtered subset and a requested count \<open>N\<close> (not negative), the
  sampler raises no error and returns exactly \<open>min N (size of the subset)\<close> records,
  the records of the subset at pairwise distinct positions; when the rows of the
  store are distinct no record appears twice. Requesting 5 recommendations from a
  filtered set of 2 rows returns exactly 2 distinct rows. The random source is any
  function that returns a permutation of the positions.
\<close>

theorem recommend_movies_sample:
  assumes "\<forall>n. distinct (permutation n) \<and> set (permutation n) = {0..<n}"
    and "0 \<le> N"
    and "filter_movies_by_genres df genres \<noteq> []"
  shows "\<exists>idx. recommend_movies permutation df genres N
        = Inr (Recommended (map (\<lambda>i. filter_movies_by_genres df genres ! i) idx))
     \<and> length idx = min (nat N) (length (filter_movies_by_genres df genres))
     \<and> distinct idx
     \<and> set idx \<subseteq> {0..<length (filter_movies_by_genres df genres)}
     \<and> (distinct df \<longrightarrow> distinct (map (\<lambda>i. filter_movies_by_genres df genres ! i) idx))"
proof -
  let ?filtered = "filter_movies_by_genres df genres"
  let ?n = "min N (int (length ?filtered))"
  have n: "0 \<le> ?n" "nat ?n \<le> length ?filtered" "nat ?n = min (nat N) (length ?filtered)"
    using assms(2) by auto
  from assms(1) have "distinct (permutation (length ?filtered))"
    "set (permutation (length ?filtered)) = {0..<length ?filtered}" by simp_all
  from sample_ok [where permutation = permutation and df = ?filtered and n = ?n, OF this n(1) n(2)]
  obtain idx where
    idx: "sample permutation ?n ?filtered = Inr (map (\<lambda>i. ?filtered ! i) idx)"
      "length idx = nat ?n" "distinct idx" "set idx \<subseteq> {0..<length ?filtered}"
    by blast
  have r: "recommend_movies permutation df genres N
        = Inr (Recommended (map (\<lambda>i. ?filtered ! i) idx))"
    using assms(3) idx(1) by (simp add: recommend_movies_def Let_def)
  have d: "distinct (map (\<lambda>i. ?filtered ! i) idx)" if "distinct df"
  proof -
    from that have "distinct ?filtered"
      by (simp add: filter_movies_by_genres_def Let_def)
    then have "inj_on (nth ?filtered) (set idx)"
      using idx(4) by (intro inj_on_nth) auto
    with idx(3) show ?thesis by (simp add: distinct_map)
  qed
  from r idx n(3) d show ?thesis by (intro exI [of _ idx]) simp
qed

theorem recommend_movies_sample_witness:
  "(\<forall>n. distinct (rev [0..<n]) \<and> set (rev [0..<n]) = {0..<n})
   \<and> (0::int) \<le> 5
   \<and> length (filter_movies_by_genres (cleaning store3) [''action'']) = 2
   \<and> recommend_movies (\<lambda>n. rev [0..<n]) (cleaning store3) [''action''] 5
       = Inr (Recommended
           [\<lparr>Title = Some ''Hot Fuzz'', Genre = Some ''actioncomedy'', Rating = None,
             Year = Some ''2007''\<rparr>,
            \<lparr>Title = Some ''Heat'', Genre = Some ''action'', Rating = None,
             Year = Some ''1995''\<rparr>])
   \<and> (\<exists>idx. length idx = 2 \<and> distinct idx
         \<and> recommend_movies (\<lambda>n. rev [0..<n]) (cleaning store3) [''action''] 5
            = Inr (Recommended
                (map (\<lambda>i. filter_movies_by_genres (cleaning store3) [''action''] ! i) idx)))"
proof -
  let ?p = "\<lambda>n. rev [0..<n]"
  have p: "\<forall>n. distinct (?p n) \<and> set (?p n) = {0..<n}" by simp
  have f: "filter_movies_by_genres (cleaning store3) [''action''] =
       [\<lparr>Title = Some ''Heat'', Genre = Some ''action'', Rating = None, Year = Some ''1995''\<rparr>,
        \<lparr>Title = Some ''Hot Fuzz'', Genre = Some ''actioncomedy'', Rating = None,
         Year = Some ''2007''\<rparr>]"
    by code_simp
  then have ne: "filter_movies_by_genres (cleaning store3) [''action''] \<noteq> []" by simp
  have r: "recommend_movies ?p (cleaning store3) [''action''] 5
       = Inr (Recommended
           [\<lparr>Title = Some ''Hot Fuzz'', Genre = Some ''actioncomedy'', Rating = None,
             Year = Some ''2007''\<rparr>,
            \<lparr>Title = Some ''Heat'', Genre = Some ''action'', Rating = None,
             Year = Some ''1995''\<rparr>])"
    by code_simp
  from recommend_movies_sample [OF p _ ne, of 5] obtain idx where
    idx: "recommend_movies ?p (cleaning store3) [''action''] 5
        = Inr (Recommended
            (map (\<lambda>i. filter_movies_by_genres (cleaning store3) [''action''] ! i) idx))"
      "length idx = min (nat 5) (length (filter_movies_by_genres (cleaning store3) [''action'']))"
      "distinct idx"
    by auto
  from idx(2) have "length idx = 2" by (simp only: f) simp
  with idx(1,3)
  have e: "\<exists>idx. length idx = 2 \<and> distinct idx
         \<and> recommend_movies ?p (cleaning store3) [''action''] 5
            = Inr (Recommended
                (map (\<lambda>i. filter_movies_by_genres (cleaning store3) [''action''] ! i) idx))"
    by blast
  have l: "length (filter_movies_by_genres (cleaning store3) [''action'']) = 2"
    by (simp only: f) simp
  from p l r e show ?thesis by simp
qed


section \<open>The suggestion engine\<close>

subsection \<open>The vocabulary and the ranking\<close>

lemma set_add_set: "set (set_add genres g) = insert g (set genres)"
  by (auto simp: set_add_def)

lemma set_add_distinct: "distinct genres \<Longrightarrow> distinct (set_add genres g)"
  by (auto simp: set_add_def)

lemma add_parts_set:
  "set (add_parts genres parts) = set genres \<union>
     {clean. \<exists>part \<in> set parts. clean = str_lower (str_strip part)
        \<and> clean \<noteq> [] \<and> clean \<noteq> ''unknown'' \<and> clean \<noteq> ''n/a''}"
  unfolding add_parts_def
proof (induction parts arbitrary: genres)
  case Nil
  then show ?case by simp
next
  case (Cons p ps)
  show ?case
    by (simp only: foldl_Cons Cons.IH) (auto simp: Let_def set_add_set)
qed

lemma add_parts_distinct: "distinct genres \<Longrightarrow> distinct (add_parts genres parts)"
  unfolding add_parts_def
  by (induction parts arbitrary: genres) (auto simp: Let_def set_add_distinct)

lemma get_all_genres_fold_set:
  "set (foldl (\<lambda>genres g. add_parts genres (split_comma g)) acc gs) = set acc \<union>
     {clean. \<exists>g \<in> set gs. \<exists>part \<in> set (split_comma g). clean = str_lower (str_strip part)
        \<and> clean \<noteq> [] \<and> clean \<noteq> ''unknown'' \<and> clean \<noteq> ''n/a''}"
proof (induction gs arbitrary: acc)
  case Nil
  then show ?case by simp
next
  case (Cons g gs)
  show ?case
    by (simp only: foldl_Cons Cons.IH add_parts_set) auto
qed

lemma get_all_genres_fold_distinct:
  "distinct acc \<Longrightarrow> distinct (foldl (\<lambda>genres g. add_parts genres (split_comma g)) acc gs)"
  by (induction gs arbitrary: acc) (auto simp: add_parts_distinct)

lemma get_all_genres_set: "set (get_all_genres df) = vocabulary df"
proof -
  have g: "g \<in> set (List.map_filter Genre df) \<longleftrightarrow> (\<exists>r \<in> set df. Genre r = Some g)" for g
    by (rule in_map_filter)
  show ?thesis
    unfolding get_all_genres_def get_all_genres_fold_set vocabulary_def Bex_def g
    by auto
qed

lemma get_all_genres_distinct: "distinct (get_all_genres df)"
  unfolding get_all_genres_def by (rule get_all_genres_fold_distinct) simp

lemma nlargest_set: "set (nlargest n xs) \<subseteq> set xs"
  unfolding nlargest_def using set_take_subset [of n "rev (sort xs)"] by simp

lemma nlargest_length: "length (nlargest n xs) \<le> n"
  by (simp add: nlargest_def)

lemma nlargest_sorted: "sorted_wrt (\<lambda>p q. p \<ge> q) (nlargest n xs)"
proof -
  have "sorted_wrt (\<lambda>p q. p \<ge> q) (rev (sort xs))"
    by (simp add: sorted_wrt_rev)
  then show ?thesis unfolding nlargest_def by (rule sorted_wrt_take)
qed

lemma nlargest_top:
  assumes "y \<in> set xs" "y \<notin> set (nlargest n xs)"
  shows "length (nlargest n xs) = n \<and> (\<forall>z \<in> set (nlargest n xs). y \<le> z)"
proof -
  let ?zs = "rev (sort xs)"
  have "sorted_wrt (\<lambda>p q. p \<ge> q) ?zs"
    by (simp add: sorted_wrt_rev)
  then have "sorted_wrt (\<lambda>p q. p \<ge> q) (take n ?zs @ drop n ?zs)"
    by (simp only: append_take_drop_id)
  then have s: "\<forall>z \<in> set (take n ?zs). \<forall>q \<in> set (drop n ?zs). z \<ge> q"
    unfolding sorted_wrt_append by blast
  from assms(1) have "y \<in> set ?zs" by simp
  then have "y \<in> set (take n ?zs) \<union> set (drop n ?zs)"
    by (metis append_take_drop_id set_append)
  with assms(2) have d: "y \<in> set (drop n ?zs)" by (simp add: nlargest_def)
  then have "n < length ?zs" by (cases "n < length ?zs") auto
  then have "length (nlargest n xs) = n" by (simp add: nlargest_def)
  moreover from s d have "\<forall>z \<in> set (take n ?zs). y \<le> z"
    by blast
  ultimately show ?thesis by (simp add: nlargest_def)
qed


lemma nlargest_enumeration:
  assumes "distinct xs" "distinct ys" "set xs = set ys"
  shows "nlargest n xs = nlargest n ys"
proof -
  have "sort xs = sorted_list_of_set (set xs)" "sort ys = sorted_list_of_set (set ys)"
    using assms(1,2) by (simp_all add: sorted_list_of_set_sort_remdups distinct_remdups_id)
  with assms(3) show ?thesis by (simp add: nlargest_def)
qed

lemma get_close_matches_Inr:
  "get_close_matches word possibilities 3 (6 / 10) =
     Inr (map snd (nlargest 3 (map (\<lambda>x. (ratio x word, x))
       (filter (eligible (6 / 10) word) possibilities))))"
  by (simp add: get_close_matches_def eligible_def Let_def cong: filter_cong)

lemma get_close_matches_enumeration:
  assumes "distinct xs" "distinct ys" "set xs = set ys"
  shows "get_close_matches word xs 3 (6 / 10) = get_close_matches word ys 3 (6 / 10)"
proof -
  let ?f = "\<lambda>x. (ratio x word, x)"
  have i: "inj_on ?f A" for A by (rule inj_onI) simp
  have d: "distinct (map ?f (filter (eligible (6 / 10) word) xs))"
    "distinct (map ?f (filter (eligible (6 / 10) word) ys))"
    using assms(1,2) by (simp_all add: distinct_map i)
  have "set (map ?f (filter (eligible (6 / 10) word) xs))
     = set (map ?f (filter (eligible (6 / 10) word) ys))"
    using assms(3) by simp
  from nlargest_enumeration [OF d this, of 3] show ?thesis
    unfolding get_close_matches_Inr by (simp only:)
qed

lemma close_matches:
  assumes "get_close_matches word possibilities 3 (6 / 10) = Inr matches"
  shows "length matches \<le> 3"
    and "set matches \<subseteq> {x \<in> set possibilities. eligible (6 / 10) word x}"
    and "sorted_wrt (before word) matches"
    and "distinct possibilities \<Longrightarrow> distinct matches"
    and "y \<in> set possibilities \<Longrightarrow> eligible (6 / 10) word y \<Longrightarrow> y \<notin> set matches
         \<Longrightarrow> length matches = 3 \<and> (\<forall>x \<in> set matches. before word x y)"
proof -
  let ?f = "\<lambda>x. (ratio x word, x)"
  let ?R = "map ?f (filter (eligible (6 / 10) word) possibilities)"
  let ?N = "nlargest 3 ?R"
  from assms have m: "matches = map snd ?N"
    unfolding get_close_matches_Inr by simp
  have sub: "set ?N \<subseteq> set ?R" by (rule nlargest_set)
  then have form: "p = ?f (snd p) \<and> snd p \<in> set possibilities \<and> eligible (6 / 10) word (snd p)"
    if "p \<in> set ?N" for p
    using that by auto
  show "length matches \<le> 3" unfolding m using nlargest_length [of 3 ?R] by simp
  show "set matches \<subseteq> {x \<in> set possibilities. eligible (6 / 10) word x}"
    unfolding m using form by auto
  have le: "before word (snd p) (snd q)" if "p \<in> set ?N" "q \<in> set ?N" "q \<le> p" for p q
  proof -
    from form [OF that(1)] form [OF that(2)] that(3)
    have "?f (snd q) \<le> ?f (snd p)" by simp
    then show ?thesis by (auto simp: before_def less_eq_prod_def)
  qed
  have "sorted_wrt (\<lambda>p q. before word (snd p) (snd q)) ?N"
    by (rule sorted_wrt_mono_rel [OF _ nlargest_sorted]) (use le in blast)
  then show "sorted_wrt (before word) matches"
    unfolding m by (simp add: sorted_wrt_map)
  show "distinct matches" if "distinct possibilities"
  proof -
    have i: "inj_on snd (set ?R)" by (rule inj_onI) auto
    from that have "distinct ?R" by (simp add: distinct_map inj_on_def)
    then have "distinct (sort ?R)" by simp
    then have d: "distinct ?N" unfolding nlargest_def by simp
    from i sub have "inj_on snd (set ?N)" by (rule inj_on_subset)
    with d show ?thesis unfolding m by (simp add: distinct_map)
  qed
  show "length matches = 3 \<and> (\<forall>x \<in> set matches. before word x y)"
    if y: "y \<in> set possibilities" "eligible (6 / 10) word y" "y \<notin> set matches"
  proof -
    from y(1,2) have in_R: "?f y \<in> set ?R" by simp
    have "?f y \<notin> set ?N"
    proof
      assume "?f y \<in> set ?N"
      then have "snd (?f y) \<in> snd ` set ?N" by (rule imageI)
      with y(3) show False unfolding m by simp
    qed
    from nlargest_top [OF in_R this]
    have l: "length ?N = 3" and t: "\<forall>z \<in> set ?N. ?f y \<le> z" by simp_all
    have "before word x y" if "x \<in> set matches" for x
    proof -
      from that obtain p where p: "p \<in> set ?N" "x = snd p" unfolding m by auto
      from t p(1) have "?f y \<le> p" by simp
      with form [OF p(1)] have "?f y \<le> ?f (snd p)" by simp
      then show ?thesis unfolding p(2) by (auto simp: before_def less_eq_prod_def)
    qed
    with l show ?thesis unfolding m by simp
  qed
qed

lemma map_of_replace:
  "map_of (map (\<lambda>(k', v'). if k' = k then (k', v) else (k', v')) d) x
     = (if x = k then (if k \<in> fst ` set d then Some v else None) else map_of d x)"
proof (induction d arbitrary: x)
  case Nil
  show ?case by simp
next
  case (Cons p d)
  obtain k' v' where p: "p = (k', v')" by (cases p)
  show ?case
  proof (cases "k' = k")
    case True
    then show ?thesis unfolding p by (simp add: Cons.IH)
  next
    case False
    then show ?thesis unfolding p by (simp add: Cons.IH)
  qed
qed

lemma dict_set_map_of: "map_of (dict_set d k v) = (map_of d)(k \<mapsto> v)"
proof (cases "k \<in> fst ` set d")
  case True
  then have "dict_set d k v = map (\<lambda>(k', v'). if k' = k then (k', v) else (k', v')) d"
    by (simp add: dict_set_def)
  then have "map_of (dict_set d k v) x = ((map_of d)(k \<mapsto> v)) x" for x
    using True by (simp only: map_of_replace) simp
  then show ?thesis by (rule ext)
next
  case False
  then have n: "map_of d k = None" by (simp add: map_of_eq_None_iff)
  from False have "dict_set d k v = d @ [(k, v)]" by (simp add: dict_set_def)
  then have "map_of (dict_set d k v) x = ((map_of d)(k \<mapsto> v)) x" for x
    using n by (simp add: map_add_def split: option.splits)
  then show ?thesis by (rule ext)
qed

lemma dict_set_keys:
  assumes "distinct (map fst d)"
  shows "distinct (map fst (dict_set d k v))"
proof (cases "k \<in> fst ` set d")
  case True
  let ?F = "\<lambda>(k', v'). if k' = k then (k', v) else (k', v')"
  have e: "map fst (map ?F d) = map fst d"
    by (induction d) auto
  from True have "dict_set d k v = map ?F d" by (simp add: dict_set_def)
  then show ?thesis by (simp only: e assms)
next
  case False
  then have "dict_set d k v = d @ [(k, v)]" by (simp add: dict_set_def)
  with False assms show ?thesis by simp
qed

lemma suggestions_loop_Inr:
  assumes "\<And>genre. get_close_matches (str_lower genre) all_genres 3 cutoff = Inr (M genre)"
    and "distinct (map fst suggestions)"
  shows "\<exists>result. suggestions_loop chosen_genres all_genres cutoff suggestions = Inr result
     \<and> distinct (map fst result)
     \<and> map_of result = (\<lambda>genre. if genre \<in> set chosen_genres \<and> M genre \<noteq> []
                                   then Some (M genre) else map_of suggestions genre)"
  using assms(2)
proof (induction chosen_genres arbitrary: suggestions)
  case Nil
  then show ?case by simp
next
  case (Cons genre rest)
  show ?case
  proof (cases "M genre = []")
    case True
    from Cons.IH [OF Cons.prems] obtain result where
      r: "suggestions_loop rest all_genres cutoff suggestions = Inr result"
        "distinct (map fst result)"
        "map_of result = (\<lambda>genre. if genre \<in> set rest \<and> M genre \<noteq> []
                                   then Some (M genre) else map_of suggestions genre)"
      by blast
    from True r(1) have "suggestions_loop (genre # rest) all_genres cutoff suggestions = Inr result"
      by (simp add: assms(1))
    moreover from True r(3)
    have "map_of result = (\<lambda>g. if g \<in> set (genre # rest) \<and> M g \<noteq> []
                                   then Some (M g) else map_of suggestions g)"
      by (auto simp: fun_eq_iff)
    ultimately show ?thesis using r(2) by blast
  next
    case False
    let ?s = "dict_set suggestions genre (M genre)"
    from Cons.prems have "distinct (map fst ?s)" by (rule dict_set_keys)
    from Cons.IH [OF this] obtain result where
      r: "suggestions_loop rest all_genres cutoff ?s = Inr result"
        "distinct (map fst result)"
        "map_of result = (\<lambda>genre. if genre \<in> set rest \<and> M genre \<noteq> []
                                   then Some (M genre) else map_of ?s genre)"
      by blast
    from False r(1) have "suggestions_loop (genre # rest) all_genres cutoff suggestions = Inr result"
      by (simp add: assms(1))
    moreover from False r(3)
    have "map_of result = (\<lambda>g. if g \<in> set (genre # rest) \<and> M g \<noteq> []
                                   then Some (M g) else map_of suggestions g)"
      by (auto simp: fun_eq_iff dict_set_map_of)
    ultimately show ?thesis using r(2) by blast
  qed
qed


lemma suggestions_loop_cong:
  assumes "\<And>genre. get_close_matches (str_lower genre) xs 3 cutoff
                    = get_close_matches (str_lower genre) ys 3 cutoff"
  shows "suggestions_loop chosen_genres xs cutoff suggestions
       = suggestions_loop chosen_genres ys cutoff suggestions"
  by (induction chosen_genres arbitrary: suggestions) (simp_all add: assms split: sum.splits)

subsection \<open>The bounds of the score\<close>

text \<open>
  \<open>quick_ratio\<close> and \<open>real_quick_ratio\<close> are upper bounds of \<open>ratio\<close>, so the three tests
  of \<open>get_close_matches\<close> select the candidates whose score reaches the cutoff.
\<close>

lemma quick_matches_mset: "quick_matches a avail = size (mset a \<inter># mset avail)"
proof (induction a arbitrary: avail)
  case Nil
  show ?case by simp
next
  case (Cons elt rest)
  show ?case
  proof (cases "elt \<in> set avail")
    case True
    then have "mset avail = add_mset elt (mset (remove1 elt avail))" by simp
    then have "mset (elt # rest) \<inter># mset avail
        = add_mset elt (mset rest \<inter># mset (remove1 elt avail))"
      by (simp only: mset.simps add_mset_inter_add_mset)
    with True show ?thesis by (simp add: Cons.IH)
  next
    case False
    then show ?thesis by (simp add: Cons.IH inter_add_left1)
  qed
qed


lemma j2lenget_ends:
  assumes "ends a b alo blo bhi e j2len"
  shows "j2lenget j2len j \<le> e - alo \<and> j2lenget j2len j \<le> j - blo
     \<and> (\<forall>t < j2lenget j2len j. a ! (e - j2lenget j2len j + t) = b ! (j - j2lenget j2len j + t))"
proof (cases "j = 0")
  case True
  then show ?thesis by (simp add: j2lenget_def)
next
  case False
  show ?thesis
  proof (cases "map_of j2len (j - 1)")
    case None
    with False show ?thesis by (simp add: j2lenget_def)
  next
    case (Some k)
    then have "(j - 1, k) \<in> set j2len" by (rule map_of_SomeD)
    with assms have "k \<le> e - alo \<and> k \<le> j - 1 + 1 - blo
        \<and> (\<forall>t<k. a ! (e - k + t) = b ! (j - 1 + 1 - k + t))"
      unfolding ends_def by blast
    moreover from False have "j - 1 + 1 = j" by simp
    moreover from False Some have "j2lenget j2len j = k" by (simp add: j2lenget_def)
    ultimately show ?thesis by simp
  qed
qed

lemma inner_loop_block:
  assumes old: "ends a b alo blo bhi i j2len" and i: "alo \<le> i" "i < ahi"
    and js: "\<forall>j \<in> set js. b ! j = a ! i"
    and new: "ends a b alo blo bhi (i + 1) new"
    and best: "block a b alo ahi blo bhi (besti, bestj, bestsize)"
    and run: "inner_loop i blo bhi j2len js (new, besti, bestj, bestsize) = (new', best')"
  shows "ends a b alo blo bhi (i + 1) new' \<and> block a b alo ahi blo bhi best'"
  using js new best run
proof (induction js arbitrary: new besti bestj bestsize)
  case Nil
  then show ?case by simp
next
  case (Cons j js)
  from Cons.prems(1) have js: "\<forall>j \<in> set js. b ! j = a ! i" and j: "b ! j = a ! i" by simp_all
  show ?case
  proof (cases "j < blo")
    case True
    with Cons.prems(4) have "inner_loop i blo bhi j2len js (new, besti, bestj, bestsize)
        = (new', best')" by simp
    from Cons.IH [OF js Cons.prems(2) Cons.prems(3) this] show ?thesis .
  next
    case False
    note nb = this
    show ?thesis
    proof (cases "j \<ge> bhi")
      case True
      with nb Cons.prems show ?thesis by simp
    next
      case False
      define g where "g = j2lenget j2len j"
      from j2lenget_ends [OF old, of j]
      have g: "g \<le> i - alo" "g \<le> j - blo" "\<forall>t<g. a ! (i - g + t) = b ! (j - g + t)"
        unfolding g_def by simp_all
      have m: "a ! (i + 1 - (g + 1) + t) = b ! (j + 1 - (g + 1) + t)" if "t < g + 1" for t
      proof (cases "t < g")
        case True
        with g(3) show ?thesis by simp
      next
        case False
        with that have "t = g" by simp
        with g(1,2) i(1) nb j show ?thesis by simp
      qed
      have n: "ends a b alo blo bhi (i + 1) ((j, g + 1) # new)"
        unfolding ends_def
      proof (intro allI impI)
        fix j' k'
        assume "(j', k') \<in> set ((j, g + 1) # new)"
        then consider "j' = j" "k' = g + 1" | "(j', k') \<in> set new" by auto
        then show "k' \<le> i + 1 - alo \<and> k' \<le> j' + 1 - blo \<and> j' < bhi
           \<and> (\<forall>t<k'. a ! (i + 1 - k' + t) = b ! (j' + 1 - k' + t))"
        proof cases
          case 1
          from g(1,2) i(1) nb False m show ?thesis unfolding 1 by auto
        next
          case 2
          with Cons.prems(2) show ?thesis unfolding ends_def by blast
        qed
      qed
      have nbest: "block a b alo ahi blo bhi (i + 1 - (g + 1), j + 1 - (g + 1), g + 1)"
        unfolding block_def using g(1,2) i nb False m by auto
      show ?thesis
      proof (cases "g + 1 > bestsize")
        case True
        with nb False Cons.prems(4)
        have r: "inner_loop i blo bhi j2len js
            ((j, g + 1) # new, i + 1 - (g + 1), j + 1 - (g + 1), g + 1) = (new', best')"
          by (simp add: Let_def g_def)
        from Cons.IH [OF js n nbest r] show ?thesis .
      next
        case gt: False
        with nb False Cons.prems(4)
        have r: "inner_loop i blo bhi j2len js ((j, g + 1) # new, besti, bestj, bestsize)
            = (new', best')"
          by (simp add: Let_def g_def)
        from Cons.IH [OF js n Cons.prems(3) r] show ?thesis .
      qed
    qed
  qed
qed

lemma b2j_nth: "j \<in> set (b2j b elt) \<Longrightarrow> b ! j = elt"
  by (simp add: b2j_def split: if_splits)

lemma outer_block:
  assumes "alo \<le> m" and "ends a b alo blo bhi m j2len"
    and "block a b alo ahi blo bhi best"
    and "foldl (outer_step a b blo bhi) (j2len, best) [m..<ahi] = (j2len', best')"
  shows "block a b alo ahi blo bhi best'"
  using assms
proof (induction "ahi - m" arbitrary: m j2len best)
  case 0
  then show ?case by simp
next
  case (Suc n)
  then have m: "m < ahi" by simp
  then have u: "[m..<ahi] = m # [Suc m..<ahi]" by (rule upt_conv_Cons)
  obtain besti bestj bestsize where b: "best = (besti, bestj, bestsize)" by (cases best)
  obtain new nbest where st:
    "inner_loop m blo bhi j2len (b2j b (a ! m)) ([], besti, bestj, bestsize) = (new, nbest)"
    by (cases "inner_loop m blo bhi j2len (b2j b (a ! m)) ([], besti, bestj, bestsize)")
  have e: "ends a b alo blo bhi (m + 1) []" by (simp add: ends_def)
  have js: "\<forall>j \<in> set (b2j b (a ! m)). b ! j = a ! m" by (simp add: b2j_nth)
  from inner_loop_block [OF Suc.prems(2) Suc.prems(1) m js e Suc.prems(3) [unfolded b] st]
  have i: "ends a b alo blo bhi (Suc m) new" "block a b alo ahi blo bhi nbest" by simp_all
  from Suc.prems(4) u st b
  have f: "foldl (outer_step a b blo bhi) (new, nbest) [Suc m..<ahi] = (j2len', best')"
    by (simp add: outer_step_def)
  from Suc.hyps(2) have n: "n = ahi - Suc m" by simp
  from Suc.prems(1) have le: "alo \<le> Suc m" by simp
  from Suc.hyps(1) [OF n le i(1) i(2) f] show ?case .
qed

lemma extend_back_block:
  "block a b alo ahi blo bhi (besti, bestj, bestsize)
   \<Longrightarrow> block a b alo ahi blo bhi (extend_back a b alo blo (besti, bestj, bestsize))"
proof (induction a b alo blo "(besti, bestj, bestsize)" arbitrary: besti bestj bestsize
    rule: extend_back.induct)
  case (1 a b alo blo besti bestj bestsize)
  have eq: "extend_back a b alo blo (besti, bestj, bestsize) =
      (if besti > alo \<and> bestj > blo \<and> a ! (besti - 1) = b ! (bestj - 1)
       then extend_back a b alo blo (besti - 1, bestj - 1, bestsize + 1)
       else (besti, bestj, bestsize))"
    by (rule extend_back.simps)
  show ?case
  proof (cases "besti > alo \<and> bestj > blo \<and> a ! (besti - 1) = b ! (bestj - 1)")
    case True
    have "a ! (besti - 1 + t) = b ! (bestj - 1 + t)" if "t < bestsize + 1" for t
    proof (cases t)
      case 0
      with True show ?thesis by simp
    next
      case (Suc t')
      with that "1.prems" have "a ! (besti + t') = b ! (bestj + t')"
        by (simp add: block_def)
      with True Suc show ?thesis by simp
    qed
    with "1.prems" True
    have "block a b alo ahi blo bhi (besti - 1, bestj - 1, bestsize + 1)"
      by (auto simp: block_def)
    from "1.hyps" [OF True this] show ?thesis
      unfolding eq [unfolded if_P [OF True]] .
  next
    case False
    from "1.prems" show ?thesis unfolding eq [unfolded if_not_P [OF False]] .
  qed
qed

lemma extend_forward_block:
  "block a b alo ahi blo bhi (besti, bestj, bestsize)
   \<Longrightarrow> block a b alo ahi blo bhi (extend_forward a b ahi bhi (besti, bestj, bestsize))"
proof (induction a b ahi bhi "(besti, bestj, bestsize)" arbitrary: besti bestj bestsize
    rule: extend_forward.induct)
  case (1 a b ahi bhi besti bestj bestsize)
  have eq: "extend_forward a b ahi bhi (besti, bestj, bestsize) =
      (if besti + bestsize < ahi \<and> bestj + bestsize < bhi
          \<and> a ! (besti + bestsize) = b ! (bestj + bestsize)
       then extend_forward a b ahi bhi (besti, bestj, bestsize + 1)
       else (besti, bestj, bestsize))"
    by (rule extend_forward.simps)
  show ?case
  proof (cases "besti + bestsize < ahi \<and> bestj + bestsize < bhi
         \<and> a ! (besti + bestsize) = b ! (bestj + bestsize)")
    case True
    have "a ! (besti + t) = b ! (bestj + t)" if "t < bestsize + 1" for t
    proof (cases "t < bestsize")
      case True
      with "1.prems" show ?thesis by (simp add: block_def)
    next
      case False
      with that have "t = bestsize" by simp
      with True show ?thesis by simp
    qed
    with "1.prems" True
    have "block a b alo ahi blo bhi (besti, bestj, bestsize + 1)"
      by (simp add: block_def)
    from "1.hyps" [OF True this] show ?thesis
      unfolding eq [unfolded if_P [OF True]] .
  next
    case False
    from "1.prems" show ?thesis unfolding eq [unfolded if_not_P [OF False]] .
  qed
qed

lemma find_longest_match_block:
  assumes "alo \<le> ahi" "blo \<le> bhi"
  shows "block a b alo ahi blo bhi (find_longest_match a b alo ahi blo bhi)"
proof -
  obtain j2len best where f:
    "foldl (outer_step a b blo bhi) ([], alo, blo, 0) [alo..<ahi] = (j2len, best)"
    by (cases "foldl (outer_step a b blo bhi) ([], alo, blo, 0) [alo..<ahi]")
  have "ends a b alo blo bhi alo []" by (simp add: ends_def)
  moreover from assms have "block a b alo ahi blo bhi (alo, blo, 0)" by (simp add: block_def)
  ultimately have "block a b alo ahi blo bhi best"
    using f by (intro outer_block [of alo alo a b blo bhi "[]" ahi "(alo, blo, 0)" j2len best]) simp_all
  moreover obtain bi bj bs where b: "best = (bi, bj, bs)" by (cases best)
  ultimately have "block a b alo ahi blo bhi (extend_back a b alo blo (bi, bj, bs))"
    by (simp only: extend_back_block)
  moreover obtain ci cj cs where c: "extend_back a b alo blo (bi, bj, bs) = (ci, cj, cs)"
    by (cases "extend_back a b alo blo (bi, bj, bs)")
  ultimately have "block a b alo ahi blo bhi (extend_forward a b ahi bhi (ci, cj, cs))"
    by (simp only: extend_forward_block)
  with f b c show ?thesis by (simp add: find_longest_match_def)
qed


lemma slice_split:
  assumes "lo \<le> mid" "mid \<le> hi"
  shows "take (hi - lo) (drop lo a) = take (mid - lo) (drop lo a) @ take (hi - mid) (drop mid a)"
proof -
  from assms have "hi - lo = (mid - lo) + (hi - mid)" by simp
  then have "take (hi - lo) (drop lo a)
      = take (mid - lo) (drop lo a) @ take (hi - mid) (drop (mid - lo) (drop lo a))"
    by (simp only: take_add)
  with assms(1) show ?thesis by simp
qed

lemma slice_eq:
  assumes "i + k \<le> length a" "j + k \<le> length b" "\<forall>t<k. a ! (i + t) = b ! (j + t)"
  shows "take k (drop i a) = take k (drop j b)"
proof (rule nth_equalityI)
  from assms(1,2) show "length (take k (drop i a)) = length (take k (drop j b))" by simp
next
  fix t
  assume "t < length (take k (drop i a))"
  with assms(1) have "t < k" by simp
  with assms show "take k (drop i a) ! t = take k (drop j b) ! t" by simp
qed

lemma inter_superadditive:
  "size (A1 \<inter># B1) + size (A2 \<inter># B2) \<le> size ((A1 + A2) \<inter># (B1 + B2))"
proof -
  have "A1 \<inter># B1 + A2 \<inter># B2 \<subseteq># A1 + A2"
    by (intro mset_subset_eq_mono_add) simp_all
  moreover have "A1 \<inter># B1 + A2 \<inter># B2 \<subseteq># B1 + B2"
    by (intro mset_subset_eq_mono_add) simp_all
  ultimately have "A1 \<inter># B1 + A2 \<inter># B2 \<subseteq># (A1 + A2) \<inter># (B1 + B2)"
    by simp
  from size_mset_mono [OF this] show ?thesis by simp
qed

lemma matching_size_le:
  assumes "alo \<le> ahi" "ahi \<le> length a" "blo \<le> bhi" "bhi \<le> length b"
  shows "matching_size a b alo ahi blo bhi
     \<le> size (mset (take (ahi - alo) (drop alo a)) \<inter># mset (take (bhi - blo) (drop blo b)))"
  using assms
proof (induction a b alo ahi blo bhi rule: matching_size.induct)
  case (1 a b alo ahi blo bhi)
  obtain i j k where f: "find_longest_match a b alo ahi blo bhi = (i, j, k)"
    by (cases "find_longest_match a b alo ahi blo bhi")
  from find_longest_match_block [OF "1.prems"(1) "1.prems"(3), of a b] f
  have blk: "alo \<le> i" "i + k \<le> ahi" "blo \<le> j" "j + k \<le> bhi"
    "\<forall>t<k. a ! (i + t) = b ! (j + t)"
    by (simp_all add: block_def)
  let ?A = "\<lambda>lo hi. mset (take (hi - lo) (drop lo a))"
  let ?B = "\<lambda>lo hi. mset (take (hi - lo) (drop lo b))"
  let ?L = "if alo < i \<and> blo < j then matching_size a b alo i blo j else 0"
  let ?R = "if i + k < ahi \<and> j + k < bhi then matching_size a b (i + k) ahi (j + k) bhi else 0"
  show ?case
  proof (cases "k = 0")
    case True
    with f have "matching_size a b alo ahi blo bhi = 0"
      by (subst matching_size.simps) simp
    then show ?thesis by simp
  next
    case False
    with f have ms: "matching_size a b alo ahi blo bhi = k + ?L + ?R"
      by (subst matching_size.simps) simp
    have L: "?L \<le> size (?A alo i \<inter># ?B blo j)"
    proof (cases "alo < i \<and> blo < j")
      case True
      from blk "1.prems" have "alo \<le> i" "i \<le> length a" "blo \<le> j" "j \<le> length b" by simp_all
      from "1.IH"(1) [OF f [symmetric] refl False True this] True show ?thesis by simp
    next
      case False
      then show ?thesis by auto
    qed
    have R: "?R \<le> size (?A (i + k) ahi \<inter># ?B (j + k) bhi)"
    proof (cases "i + k < ahi \<and> j + k < bhi")
      case True
      from blk "1.prems" have "i + k \<le> ahi" "ahi \<le> length a" "j + k \<le> bhi" "bhi \<le> length b"
        by simp_all
      from "1.IH"(2) [OF f [symmetric] refl False True this] True show ?thesis by simp
    next
      case False
      then show ?thesis by auto
    qed
    from blk "1.prems" have "i + k \<le> length a" "j + k \<le> length b" by simp_all
    from slice_eq [OF this blk(5)] have "take k (drop i a) = take k (drop j b)" .
    moreover from \<open>i + k \<le> length a\<close> have "length (take k (drop i a)) = k" by simp
    ultimately have M: "size (?A i (i + k) \<inter># ?B j (j + k)) = k"
      by (simp del: length_take)
    have sa: "?A alo ahi = ?A alo i + (?A i (i + k) + ?A (i + k) ahi)"
      using slice_split [of alo i ahi a] slice_split [of i "i + k" ahi a] blk(1,2)
      by simp
    have sb: "?B blo bhi = ?B blo j + (?B j (j + k) + ?B (j + k) bhi)"
      using slice_split [of blo j bhi b] slice_split [of j "j + k" bhi b] blk(3,4)
      by simp
    have "k + ?L + ?R \<le> size (?A alo i \<inter># ?B blo j)
        + (size (?A i (i + k) \<inter># ?B j (j + k)) + size (?A (i + k) ahi \<inter># ?B (j + k) bhi))"
      using L R M by simp
    also have "\<dots> \<le> size (?A alo i \<inter># ?B blo j)
        + size ((?A i (i + k) + ?A (i + k) ahi) \<inter># (?B j (j + k) + ?B (j + k) bhi))"
      using inter_superadditive by simp
    also have "\<dots> \<le> size (?A alo ahi \<inter># ?B blo bhi)"
      unfolding sa sb by (rule inter_superadditive)
    finally show ?thesis unfolding ms .
  qed
qed

lemma matching_size_quick: "matching_size a b 0 (length a) 0 (length b) \<le> quick_matches a b"
  using matching_size_le [of 0 "length a" a 0 "length b" b] by (simp add: quick_matches_mset)

lemma quick_matches_min: "quick_matches a b \<le> min (length a) (length b)"
proof -
  have "size (mset a \<inter># mset b) \<le> size (mset a)"
    by (rule size_mset_mono) simp
  moreover have "size (mset a \<inter># mset b) \<le> size (mset b)"
    by (rule size_mset_mono) simp
  ultimately show ?thesis by (simp add: quick_matches_mset)
qed

lemma calculate_ratio_mono: "m \<le> n \<Longrightarrow> calculate_ratio m len \<le> calculate_ratio n len"
  by (simp add: calculate_ratio_def Fract_of_int_quotient divide_right_mono)

lemma ratio_le_quick_ratio: "ratio a b \<le> quick_ratio a b"
  unfolding ratio_def quick_ratio_def by (rule calculate_ratio_mono) (rule matching_size_quick)

lemma quick_ratio_le_real: "quick_ratio a b \<le> real_quick_ratio a b"
  unfolding real_quick_ratio_def quick_ratio_def
  by (rule calculate_ratio_mono) (rule quick_matches_min)

lemma eligible_iff: "eligible cutoff word x \<longleftrightarrow> ratio x word \<ge> cutoff"
  using ratio_le_quick_ratio [of x word] quick_ratio_le_real [of x word]
  by (auto simp: eligible_def)

subsection \<open>The suggestions\<close>

text \<open>
  C4 (as amended). The candidate vocabulary is the set of the genre values of the
  store split on commas, each part trimmed and lowercased, without the empty part,
  \<open>unknown\<close> and \<open>n/a\<close>, and \<open>get_all_genres\<close> enumerates it without repetition. For
  every enumeration of the vocabulary without repetition the suggestion engine returns
  the same mapping, so the suggestions do not depend on the order of the enumeration.
  A genre is missing from the mapping exactly when it was not queried or no candidate
  has a score of at least 0.6 against the lowercased query. The list of a key is not
  empty, holds at most 3 candidates, each of the vocabulary, each with a score of at
  least 0.6, no candidate twice; it is ordered by descending score, two candidates
  with the same score by descending string; and a candidate with a score of at least
  0.6 that is not in the list is ranked after each of the 3 candidates of the list.
\<close>

theorem get_genre_suggestions_ranked:
  "set (get_all_genres df) = vocabulary df \<and> distinct (get_all_genres df)
   \<and> (\<forall>all_genres. distinct all_genres \<and> set all_genres = vocabulary df \<longrightarrow>
        (\<exists>suggestions.
           get_genre_suggestions chosen_genres all_genres (6 / 10) = Inr suggestions
           \<and> get_genre_suggestions chosen_genres (get_all_genres df) (6 / 10) = Inr suggestions
           \<and> distinct (map fst suggestions)
           \<and> (\<forall>genre. map_of suggestions genre = None \<longleftrightarrow>
                 genre \<notin> set chosen_genres
                 \<or> (\<forall>x \<in> vocabulary df. ratio x (str_lower genre) < 6 / 10))
           \<and> (\<forall>genre matches. map_of suggestions genre = Some matches \<longrightarrow>
                 matches \<noteq> [] \<and> length matches \<le> 3 \<and> distinct matches
                 \<and> (\<forall>x \<in> set matches. x \<in> vocabulary df \<and> ratio x (str_lower genre) \<ge> 6 / 10)
                 \<and> sorted_wrt (before (str_lower genre)) matches
                 \<and> (\<forall>y \<in> vocabulary df.
                        ratio y (str_lower genre) \<ge> 6 / 10 \<and> y \<notin> set matches \<longrightarrow>
                        length matches = 3 \<and> (\<forall>x \<in> set matches. before (str_lower genre) x y)))))"
proof (intro conjI allI impI)
  show "set (get_all_genres df) = vocabulary df" by (rule get_all_genres_set)
  show "distinct (get_all_genres df)" by (rule get_all_genres_distinct)
next
  fix all_genres
  assume a: "distinct all_genres \<and> set all_genres = vocabulary df"
  define M where "M genre = map snd (nlargest 3 (map (\<lambda>x. (ratio x (str_lower genre), x))
       (filter (eligible (6 / 10) (str_lower genre)) all_genres)))" for genre
  have M: "get_close_matches (str_lower genre) all_genres 3 (6 / 10) = Inr (M genre)" for genre
    unfolding M_def by (rule get_close_matches_Inr)
  have "distinct (map fst ([] :: (string \<times> string list) list))" by simp
  from suggestions_loop_Inr [of all_genres "6 / 10" M, OF M this, of chosen_genres]
  obtain suggestions where
    s0: "suggestions_loop chosen_genres all_genres (6 / 10) [] = Inr suggestions"
      "distinct (map fst suggestions)"
      "map_of suggestions = (\<lambda>genre. if genre \<in> set chosen_genres \<and> M genre \<noteq> []
                                        then Some (M genre) else map_of [] genre)"
    by blast
  have s: "get_genre_suggestions chosen_genres all_genres (6 / 10) = Inr suggestions"
      "distinct (map fst suggestions)"
      "map_of suggestions = (\<lambda>genre. if genre \<in> set chosen_genres \<and> M genre \<noteq> []
                                        then Some (M genre) else None)"
    using s0 by (simp_all only: get_genre_suggestions_def map_of.simps)
  have "get_close_matches (str_lower genre) (get_all_genres df) 3 (6 / 10)
      = get_close_matches (str_lower genre) all_genres 3 (6 / 10)" for genre
    by (rule get_close_matches_enumeration)
      (use a in \<open>simp_all add: get_all_genres_set get_all_genres_distinct\<close>)
  then have "suggestions_loop chosen_genres (get_all_genres df) (6 / 10) []
      = suggestions_loop chosen_genres all_genres (6 / 10) []"
    by (rule suggestions_loop_cong)
  with s(1) have s': "get_genre_suggestions chosen_genres (get_all_genres df) (6 / 10)
      = Inr suggestions"
    by (simp add: get_genre_suggestions_def)
  note el = eligible_iff [of "6 / 10"]
  have empty: "M genre = [] \<longleftrightarrow> (\<forall>x \<in> vocabulary df. ratio x (str_lower genre) < 6 / 10)"
    for genre
  proof
    assume e: "M genre = []"
    show "\<forall>x \<in> vocabulary df. ratio x (str_lower genre) < 6 / 10"
    proof (rule ballI, rule ccontr)
      fix y
      assume "y \<in> vocabulary df" "\<not> ratio y (str_lower genre) < 6 / 10"
      then have y: "y \<in> set all_genres" "eligible (6 / 10) (str_lower genre) y"
        using a by (simp_all only: el not_less)
      from e have "y \<notin> set (M genre)" by simp
      from close_matches(5) [OF M y this] e show False by simp
    qed
  next
    assume r: "\<forall>x \<in> vocabulary df. ratio x (str_lower genre) < 6 / 10"
    show "M genre = []"
    proof (rule ccontr)
      assume "M genre \<noteq> []"
      then obtain x where x: "x \<in> set (M genre)" by (cases "M genre") auto
      with close_matches(2) [OF M [of genre]]
      have x': "x \<in> set all_genres" "eligible (6 / 10) (str_lower genre) x" by blast+
      from x'(2) have "ratio x (str_lower genre) \<ge> 6 / 10" by (simp only: el)
      moreover from r x'(1) a have "ratio x (str_lower genre) < 6 / 10" by blast
      ultimately show False by (blast dest: leD)
    qed
  qed
  have none: "map_of suggestions genre = None \<longleftrightarrow>
       genre \<notin> set chosen_genres \<or> (\<forall>x \<in> vocabulary df. ratio x (str_lower genre) < 6 / 10)"
    for genre
    unfolding s(3) empty [symmetric] by simp
  have some: "matches \<noteq> [] \<and> length matches \<le> 3 \<and> distinct matches
       \<and> (\<forall>x \<in> set matches. x \<in> vocabulary df \<and> ratio x (str_lower genre) \<ge> 6 / 10)
       \<and> sorted_wrt (before (str_lower genre)) matches
       \<and> (\<forall>y \<in> vocabulary df.
              ratio y (str_lower genre) \<ge> 6 / 10 \<and> y \<notin> set matches \<longrightarrow>
              length matches = 3 \<and> (\<forall>x \<in> set matches. before (str_lower genre) x y))"
    if "map_of suggestions genre = Some matches" for genre matches
  proof -
    from that have m: "matches = M genre" "matches \<noteq> []"
      unfolding s(3) by (simp_all split: if_splits)
    note c = close_matches [OF M [of genre, folded m(1)]]
    have "x \<in> vocabulary df \<and> ratio x (str_lower genre) \<ge> 6 / 10" if "x \<in> set matches" for x
    proof -
      from c(2) that have "x \<in> set all_genres" "eligible (6 / 10) (str_lower genre) x"
        by blast+
      with a show ?thesis by (simp only: el)
    qed
    then have "\<forall>x \<in> set matches. x \<in> vocabulary df \<and> ratio x (str_lower genre) \<ge> 6 / 10"
      by blast
    moreover from c(4) a have "distinct matches" by simp
    moreover have "\<forall>y \<in> vocabulary df.
              ratio y (str_lower genre) \<ge> 6 / 10 \<and> y \<notin> set matches \<longrightarrow>
              length matches = 3 \<and> (\<forall>x \<in> set matches. before (str_lower genre) x y)"
      using c(5) a unfolding el by blast
    ultimately show ?thesis using m(2) c(1) c(3) by blast
  qed
  from s(1) s' s(2) none some
  show "\<exists>suggestions.
           get_genre_suggestions chosen_genres all_genres (6 / 10) = Inr suggestions
           \<and> get_genre_suggestions chosen_genres (get_all_genres df) (6 / 10) = Inr suggestions
           \<and> distinct (map fst suggestions)
           \<and> (\<forall>genre. map_of suggestions genre = None \<longleftrightarrow>
                 genre \<notin> set chosen_genres
                 \<or> (\<forall>x \<in> vocabulary df. ratio x (str_lower genre) < 6 / 10))
           \<and> (\<forall>genre matches. map_of suggestions genre = Some matches \<longrightarrow>
                 matches \<noteq> [] \<and> length matches \<le> 3 \<and> distinct matches
                 \<and> (\<forall>x \<in> set matches. x \<in> vocabulary df \<and> ratio x (str_lower genre) \<ge> 6 / 10)
                 \<and> sorted_wrt (before (str_lower genre)) matches
                 \<and> (\<forall>y \<in> vocabulary df.
                        ratio y (str_lower genre) \<ge> 6 / 10 \<and> y \<notin> set matches \<longrightarrow>
                        length matches = 3 \<and> (\<forall>x \<in> set matches. before (str_lower genre) x y)))"
    by (intro exI [of _ suggestions] conjI) blast+
qed

theorem get_genre_suggestions_ranked_witness:
  "distinct (get_all_genres tie_store)
   \<and> set (get_all_genres tie_store) = vocabulary tie_store
   \<and> vocabulary tie_store = {''drama'', ''action'', ''drame''}
   \<and> get_genre_suggestions [''Dram'', ''Acton'', ''zzz''] (get_all_genres tie_store) (6 / 10)
       = Inr [(''Dram'', [''drame'', ''drama'']), (''Acton'', [''action''])]
   \<and> sorted_wrt (before ''dram'') [''drame'', ''drama'']
   \<and> ratio ''drame'' ''dram'' \<ge> 6 / 10
   \<and> ratio ''action'' ''dram'' < 6 / 10
   \<and> (\<exists>suggestions.
         get_genre_suggestions [''Dram'', ''Acton'', ''zzz''] [''action'', ''drame'', ''drama''] (6 / 10)
           = Inr suggestions
         \<and> get_genre_suggestions [''Dram'', ''Acton'', ''zzz''] (get_all_genres tie_store) (6 / 10)
           = Inr suggestions)"
proof -
  note T = get_genre_suggestions_ranked [of tie_store "[''Dram'', ''Acton'', ''zzz'']"]
  from T have v: "set (get_all_genres tie_store) = vocabulary tie_store" by (rule conjunct1)
  from T have d: "distinct (get_all_genres tie_store)" by (rule conjunct2 [THEN conjunct1])
  have g: "get_all_genres tie_store = [''drama'', ''action'', ''drame'']" by code_simp
  from v have v': "vocabulary tie_store = {''drama'', ''action'', ''drame''}"
    unfolding g by simp
  have e: "get_genre_suggestions [''Dram'', ''Acton'', ''zzz''] (get_all_genres tie_store) (6 / 10)
       = Inr [(''Dram'', [''drame'', ''drama'']), (''Acton'', [''action''])]"
    by code_simp
  have l: "str_lower ''Dram'' = ''dram''" by code_simp
  have "distinct [''action'', ''drame'', ''drama'']
      \<and> set [''action'', ''drame'', ''drama''] = vocabulary tie_store"
    unfolding v' by auto
  from T [THEN conjunct2, THEN conjunct2, THEN spec, THEN mp, OF this]
  obtain suggestions where
    s: "get_genre_suggestions [''Dram'', ''Acton'', ''zzz''] [''action'', ''drame'', ''drama''] (6 / 10)
           = Inr suggestions"
      "get_genre_suggestions [''Dram'', ''Acton'', ''zzz''] (get_all_genres tie_store) (6 / 10)
           = Inr suggestions"
      "\<forall>genre matches. map_of suggestions genre = Some matches \<longrightarrow>
                 matches \<noteq> [] \<and> length matches \<le> 3 \<and> distinct matches
                 \<and> (\<forall>x \<in> set matches. x \<in> vocabulary tie_store \<and> ratio x (str_lower genre) \<ge> 6 / 10)
                 \<and> sorted_wrt (before (str_lower genre)) matches
                 \<and> (\<forall>y \<in> vocabulary tie_store.
                        ratio y (str_lower genre) \<ge> 6 / 10 \<and> y \<notin> set matches \<longrightarrow>
                        length matches = 3 \<and> (\<forall>x \<in> set matches. before (str_lower genre) x y))"
    by blast
  from s(2) e have "suggestions = [(''Dram'', [''drame'', ''drama'']), (''Acton'', [''action''])]"
    by simp
  then have m: "map_of suggestions ''Dram'' = Some [''drame'', ''drama'']" by simp
  with s(3) have "(\<forall>x \<in> set [''drame'', ''drama'']. x \<in> vocabulary tie_store
                     \<and> ratio x (str_lower ''Dram'') \<ge> 6 / 10)
                 \<and> sorted_wrt (before (str_lower ''Dram'')) [''drame'', ''drama'']"
    by blast
  then have r: "sorted_wrt (before ''dram'') [''drame'', ''drama'']"
    "ratio ''drame'' ''dram'' \<ge> 6 / 10"
    unfolding l by (simp_all del: sorted_wrt.simps)
  from s(3) m have "\<forall>y \<in> vocabulary tie_store.
      ratio y (str_lower ''Dram'') \<ge> 6 / 10 \<and> y \<notin> set [''drame'', ''drama''] \<longrightarrow>
      length [''drame'', ''drama''] = 3"
    by blast
  then have "\<not> ratio ''action'' ''dram'' \<ge> 6 / 10"
    unfolding l v' by simp
  then have a: "ratio ''action'' ''dram'' < 6 / 10" by (simp only: not_le)
  from s(1,2) have "\<exists>suggestions.
         get_genre_suggestions [''Dram'', ''Acton'', ''zzz''] [''action'', ''drame'', ''drama''] (6 / 10)
           = Inr suggestions
         \<and> get_genre_suggestions [''Dram'', ''Acton'', ''zzz''] (get_all_genres tie_store) (6 / 10)
           = Inr suggestions"
    by blast
  with d v v' e r a show ?thesis by (intro conjI)
qed

text \<open>
  C4 as stated fails: drama and drame have the same score against dram, and the
  suggestions list drame before drama whichever of the two the enumeration holds
  first, where the order of the enumeration would give drama, drame for the
  enumeration that holds drama first.
\<close>

theorem get_genre_suggestions_tie_counterexample:
  "get_all_genres tie_store = [''drama'', ''action'', ''drame'']
   \<and> ratio ''drama'' ''dram'' = ratio ''drame'' ''dram''
   \<and> spec_close_matches ''dram'' [''drama'', ''action'', ''drame''] = [''drama'', ''drame'']
   \<and> get_genre_suggestions [''dram''] [''drama'', ''action'', ''drame''] (6 / 10)
       = Inr [(''dram'', [''drame'', ''drama''])]
   \<and> get_genre_suggestions [''dram''] [''drame'', ''action'', ''drama''] (6 / 10)
       = Inr [(''dram'', [''drame'', ''drama''])]"
  by code_simp

end
